theory Spec2Isabelle
  imports Main "HOL-Library.Word" "HOL-Library.Monad_Syntax"
begin

unbundle bit_operations_syntax

section \<open>Machine integers\<close>

text \<open>
  Sizes, indices and addresses are natural numbers. Where the C++ arithmetic can wrap
  (subtraction on \<open>size_t\<close> and \<open>uint32_t\<close>, casts to a narrower type, counters),
  the wrap-around is written out. \<open>size_t\<close> is taken to be 64 bits wide and
  \<open>Support::BitWord\<close> is the 64-bit word.
\<close>

definition SIZE_MAX :: nat where
  "SIZE_MAX = 2 ^ 64 - 1"

definition UINT32_MAX :: nat where
  "UINT32_MAX = 2 ^ 32 - 1"

definition size_t :: "nat \<Rightarrow> nat" where
  "size_t n = n mod 2 ^ 64"

definition uint32_t :: "nat \<Rightarrow> nat" where
  "uint32_t n = n mod 2 ^ 32"

definition uint8_t :: "nat \<Rightarrow> nat" where
  "uint8_t n = n mod 2 ^ 8"

definition size_t_sub :: "nat \<Rightarrow> nat \<Rightarrow> nat" where
  "size_t_sub a b = (a + 2 ^ 64 - b mod 2 ^ 64) mod 2 ^ 64"

definition uint32_sub :: "nat \<Rightarrow> nat \<Rightarrow> nat" where
  "uint32_sub a b = (a + 2 ^ 32 - b mod 2 ^ 32) mod 2 ^ 32"

definition uint8_sub :: "nat \<Rightarrow> nat \<Rightarrow> nat" where
  "uint8_sub a b = (a + 2 ^ 8 - b mod 2 ^ 8) mod 2 ^ 8"

type_synonym BitWord = "64 word"

definition kBitWordSizeInBits :: nat where
  "kBitWordSizeInBits = 64"

section \<open>Support helpers\<close>

text \<open>
  Modelled from the spec: \<open>Support::alignUp\<close> and \<open>Support::alignDown\<close> (declared in
  support.h, which is not part of the sources at hand). The spec says "round size up to
  granularity" and "align the request up to the block size"; the result is computed in
  \<open>size_t\<close>, so the addition wraps.
\<close>

definition alignUp :: "nat \<Rightarrow> nat \<Rightarrow> nat" where
  "alignUp x a = (size_t (x + (a - 1)) div a) * a"

definition alignDown :: "nat \<Rightarrow> nat \<Rightarrow> nat" where
  "alignDown x a = (x div a) * a"

text \<open>Modelled from the spec: \<open>Support::isPowerOf2\<close> (support.h).\<close>

fun isPowerOf2 :: "nat \<Rightarrow> bool" where
  "isPowerOf2 x = (if x \<le> 1 then x = 1 else even x \<and> isPowerOf2 (x div 2))"

declare isPowerOf2.simps [simp del]

text \<open>
  Modelled from the spec: \<open>Support::ctz\<close> (support.h), the number of trailing zero bits
  of a non-zero word. The C++ leaves the result for zero undefined; here it is the word
  size, and no caller in this file passes zero.
\<close>

definition ctz :: "'a::len word \<Rightarrow> nat" where
  "ctz w = length (takeWhile (\<lambda>k. \<not> bit w k) [0..<LENGTH('a)])"

text \<open>
  Modelled from the spec: the bit-vector helpers of support.h (\<open>bitVectorGetBit\<close>,
  \<open>bitVectorSetBit\<close>, \<open>bitVectorFill\<close>, \<open>bitVectorClear\<close>, \<open>bitVectorIndexOf\<close>).
  A bit vector is an array of \<open>BitWord\<close>; bit \<open>i\<close> lives in word \<open>i div 64\<close> at
  position \<open>i mod 64\<close>. An access outside the array is undefined behaviour in C++
  and is the value \<open>None\<close> here. \<open>bitVectorIndexOf\<close> scans forward without a
  bound, so it runs off the array when no bit of the wanted value follows.
\<close>

definition bitAt :: "'a::len word list \<Rightarrow> nat \<Rightarrow> bool" where
  "bitAt buf i = bit (buf ! (i div LENGTH('a))) (i mod LENGTH('a))"

definition bitVectorGetBit :: "BitWord list \<Rightarrow> nat \<Rightarrow> bool option" where
  "bitVectorGetBit buf index =
     (if index div 64 < length buf then Some (bitAt buf index) else None)"

definition bitVectorSetBit :: "BitWord list \<Rightarrow> nat \<Rightarrow> bool \<Rightarrow> BitWord list option" where
  "bitVectorSetBit buf index v =
     (if index div 64 < length buf
      then Some (buf[index div 64 :=
                  (if v then set_bit (index mod 64) (buf ! (index div 64))
                   else unset_bit (index mod 64) (buf ! (index div 64)))])
      else None)"

definition rangeMask :: "nat \<Rightarrow> nat \<Rightarrow> BitWord" where
  "rangeMask lo hi = mask hi AND NOT (mask lo)"

definition wordRangeMask :: "nat \<Rightarrow> nat \<Rightarrow> nat \<Rightarrow> BitWord" where
  "wordRangeMask index count j = rangeMask (index - j * 64) (index + count - j * 64)"

definition bitVectorFill :: "BitWord list \<Rightarrow> nat \<Rightarrow> nat \<Rightarrow> BitWord list option" where
  "bitVectorFill buf index count =
     (if count = 0 then Some buf
      else if length buf * 64 < index + count then None
      else Some (map (\<lambda>(j, w). w OR wordRangeMask index count j) (zip [0..<length buf] buf)))"

definition bitVectorClear :: "BitWord list \<Rightarrow> nat \<Rightarrow> nat \<Rightarrow> BitWord list option" where
  "bitVectorClear buf index count =
     (if count = 0 then Some buf
      else if length buf * 64 < index + count then None
      else Some (map (\<lambda>(j, w). w AND NOT (wordRangeMask index count j)) (zip [0..<length buf] buf)))"

function bitVectorIndexOf :: "BitWord list \<Rightarrow> nat \<Rightarrow> bool \<Rightarrow> nat option" where
  "bitVectorIndexOf buf start v =
     (if length buf * 64 \<le> start then None
      else if bitAt buf start = v then Some start
      else bitVectorIndexOf buf (start + 1) v)"
  by pat_completeness auto
termination
  by (relation "measure (\<lambda>(buf, start, v). length buf * 64 - start)") auto

declare bitVectorIndexOf.simps [simp del]

section \<open>BitVectorRangeIterator\<close>

text \<open>
  The iterator of the source: \<open>_ptr\<close> is kept as the index of the word it points at
  inside the array \<open>it_data\<close>. The template parameter \<open>B\<close> selects the interesting
  bit value through \<open>kXorMask\<close>.
\<close>

record 'w BitVectorRangeIterator =
  it_data :: "'w list"
  it_ptr :: nat
  it_idx :: nat
  it_end :: nat
  it_bitWord :: 'w

definition kXorMask :: "nat \<Rightarrow> 'a::len word" where
  "kXorMask B = (if B = 0 then - 1 else 0)"

definition BitVectorRangeIterator_init ::
  "nat \<Rightarrow> 'a::len word list \<Rightarrow> nat \<Rightarrow> nat \<Rightarrow> nat \<Rightarrow> 'a word BitVectorRangeIterator option" where
  "BitVectorRangeIterator_init B dat numBitWords start end' =
     (if numBitWords < (end' + LENGTH('a) - 1) div LENGTH('a) \<or> length dat < numBitWords
      then None
      else
        let idx = alignDown start LENGTH('a);
            ptr = idx div LENGTH('a);
            bitWord = (if idx < end'
                       then (dat ! ptr XOR kXorMask B) AND push_bit (start mod LENGTH('a)) (- 1)
                       else 0)
        in Some \<lparr>it_data = dat, it_ptr = ptr, it_idx = idx, it_end = end', it_bitWord = bitWord\<rparr>)"

text \<open>The loop "skip all empty BitWords"; \<open>False\<close> is the early \<open>return false\<close>.\<close>

function nextRange_skip ::
  "nat \<Rightarrow> 'a::len word BitVectorRangeIterator \<Rightarrow> (bool \<times> 'a word BitVectorRangeIterator) option" where
  "nextRange_skip B it =
     (if it_bitWord it = 0 then
        let it1 = it\<lparr>it_idx := it_idx it + LENGTH('a)\<rparr> in
        if it_end it1 \<le> it_idx it1 then Some (False, it1)
        else if it_ptr it + 1 < length (it_data it) then
          nextRange_skip B
            (it1\<lparr>it_ptr := it_ptr it + 1,
                 it_bitWord := (it_data it ! (it_ptr it + 1)) XOR kXorMask B\<rparr>)
        else None
      else Some (True, it))"
  by pat_completeness auto
termination
  by (relation "measure (\<lambda>(B, it). it_end it - it_idx it)")
     (auto simp: not_le intro!: diff_less_mono2)

text \<open>
  The inner loop that extends a range over the following words, entered when the range
  reaches the end of the current word.
\<close>

function nextRange_extend ::
  "nat \<Rightarrow> nat \<Rightarrow> nat \<Rightarrow> nat \<Rightarrow> 'a::len word BitVectorRangeIterator
     \<Rightarrow> (nat \<times> 'a word BitVectorRangeIterator) option" where
  "nextRange_extend B rangeHint rangeStart rangeEnd it =
     (if size_t_sub rangeEnd rangeStart < rangeHint then
        let it1 = it\<lparr>it_idx := it_idx it + LENGTH('a)\<rparr> in
        if it_end it1 \<le> it_idx it1 then Some (rangeEnd, it1)
        else if it_ptr it + 1 < length (it_data it) then
          let w = (it_data it ! (it_ptr it + 1)) XOR kXorMask B;
              it2 = it1\<lparr>it_ptr := it_ptr it + 1\<rparr>
          in if w \<noteq> - 1 then
               let j = ctz (NOT w)
               in Some (min (it_idx it2 + j) (it_end it2),
                        it2\<lparr>it_bitWord := w XOR NOT (push_bit j (- 1))\<rparr>)
             else nextRange_extend B rangeHint rangeStart
                    (min (it_idx it2 + LENGTH('a)) (it_end it2)) (it2\<lparr>it_bitWord := 0\<rparr>)
        else None
      else Some (rangeEnd, it))"
  by pat_completeness auto
termination
  by (relation "measure (\<lambda>(B, h, s, e, it). it_end it - it_idx it)")
     (auto simp: not_le intro!: diff_less_mono2)

text \<open>
  \<open>nextRange\<close>: the result \<open>None\<close> is a read outside the array; \<open>Some (None, it')\<close> is
  \<open>return false\<close> (the output parameters are left as they were);
  \<open>Some (Some (rangeStart, rangeEnd), it')\<close> is \<open>return true\<close>.
\<close>

definition nextRange ::
  "nat \<Rightarrow> 'a::len word BitVectorRangeIterator \<Rightarrow> nat
     \<Rightarrow> ((nat \<times> nat) option \<times> 'a word BitVectorRangeIterator) option" where
  "nextRange B it rangeHint =
     (case nextRange_skip B it of
        None \<Rightarrow> None
      | Some (False, it1) \<Rightarrow> Some (None, it1)
      | Some (True, it1) \<Rightarrow>
          let i = ctz (it_bitWord it1);
              rangeStart = it_idx it1 + i;
              bw = NOT (it_bitWord it1 XOR NOT (push_bit i (- 1)))
          in if bw = 0 then
               (case nextRange_extend B rangeHint rangeStart
                       (min (it_idx it1 + LENGTH('a)) (it_end it1)) (it1\<lparr>it_bitWord := bw\<rparr>) of
                  None \<Rightarrow> None
                | Some (rangeEnd, it2) \<Rightarrow> Some (Some (rangeStart, rangeEnd), it2))
             else
               let j = ctz bw;
                   rangeEnd = min (it_idx it1 + j) (it_end it1)
               in Some (Some (rangeStart, rangeEnd),
                        it1\<lparr>it_bitWord := NOT (bw XOR NOT (push_bit j (- 1)))\<rparr>))"

section \<open>Progress of the iterator\<close>

text \<open>
  Facts about \<open>ctz\<close> and the two bit flips of \<open>nextRange\<close>, and the measure that
  every successful call of \<open>nextRange\<close> decreases; the loops that call \<open>nextRange\<close>
  until it fails are defined by recursion on it.
\<close>

lemma ctz_le: "ctz (w::'a::len word) \<le> LENGTH('a)"
  unfolding ctz_def by (metis length_takeWhile_le length_upt diff_zero)

lemma ctz_below: "k < ctz (w::'a::len word) \<Longrightarrow> \<not> bit w k"
proof -
  assume k: "k < ctz w"
  let ?xs = "[0..<LENGTH('a)]"
  let ?P = "\<lambda>k. \<not> bit w k"
  from k have kl: "k < length (takeWhile ?P ?xs)" by (simp add: ctz_def)
  then have "takeWhile ?P ?xs ! k \<in> set (takeWhile ?P ?xs)" by (rule nth_mem)
  then have "?P (takeWhile ?P ?xs ! k)" by (rule set_takeWhileD[THEN conjunct2])
  moreover have "takeWhile ?P ?xs ! k = ?xs ! k" using kl by (rule takeWhile_nth)
  moreover have "k < LENGTH('a)" using k ctz_le[of w] by simp
  ultimately show ?thesis by simp
qed

lemma ctz_bit: "w \<noteq> 0 \<Longrightarrow> bit (w::'a::len word) (ctz w)"
proof -
  assume "w \<noteq> 0"
  then obtain n where n: "bit w n" by (auto simp: bit_eq_iff)
  then have nl: "n < LENGTH('a)" by (rule bit_imp_le_length)
  let ?xs = "[0..<LENGTH('a)]"
  let ?P = "\<lambda>k. \<not> bit w k"
  have "length (takeWhile ?P ?xs) < length ?xs"
  proof (rule ccontr)
    assume "\<not> ?thesis"
    then have "length (takeWhile ?P ?xs) = length ?xs"
      using length_takeWhile_le[of ?P ?xs] by simp
    then have "takeWhile ?P ?xs = ?xs" 
      by (metis takeWhile_eq_take take_all order_refl)
    then have "\<forall>x\<in>set ?xs. ?P x" by (metis set_takeWhileD)
    with n nl show False by simp
  qed
  then have "\<not> ?P (?xs ! length (takeWhile ?P ?xs))"
    by (rule nth_length_takeWhile)
  moreover have "ctz w < LENGTH('a)" using \<open>length (takeWhile ?P ?xs) < length ?xs\<close> by (simp add: ctz_def)
  ultimately show ?thesis by (simp add: ctz_def)
qed

lemma ctz_lt: "w \<noteq> 0 \<Longrightarrow> ctz (w::'a::len word) < LENGTH('a)"
  using ctz_bit[of w] by (auto dest: bit_imp_le_length)

lemma ctz_eqI: "bit (w::'a::len word) n \<Longrightarrow> (\<And>k. k < n \<Longrightarrow> \<not> bit w k) \<Longrightarrow> ctz w = n"
proof -
  assume n: "bit w n" and b: "\<And>k. k < n \<Longrightarrow> \<not> bit w k"
  from n have "w \<noteq> 0" by auto
  then have "bit w (ctz w)" by (rule ctz_bit)
  with b have "\<not> ctz w < n" by blast
  moreover from n ctz_below[of n w] have "\<not> n < ctz w" by blast
  ultimately show ?thesis by simp
qed

lemma ctz_zero: "ctz (0::'a::len word) = LENGTH('a)"
  by (simp add: ctz_def takeWhile_eq_all_conv[THEN iffD2])

lemma ctz_unfold:
  "ctz (w::'a::len word) =
     (if w = 0 then LENGTH('a) else if bit w 0 then 0 else 1 + ctz (drop_bit 1 w))"
proof (cases "w = 0")
  case True
  then show ?thesis by (simp add: ctz_zero)
next
  case False
  note nz = False
  show ?thesis
  proof (cases "bit w 0")
    case True
    then have "ctz w = 0" by (intro ctz_eqI) simp_all
    with nz True show ?thesis by simp
  next
    case False
    have d: "drop_bit 1 w \<noteq> 0"
    proof
      assume z: "drop_bit 1 w = 0"
      from nz obtain n where n: "bit w n" by (auto simp: bit_eq_iff)
      with False have "n \<noteq> 0" by (metis)
      then obtain m where "n = Suc m" by (cases n) auto
      with n have "bit (drop_bit 1 w) m" by (simp add: bit_drop_bit_eq)
      with z show False by simp
    qed
    have "ctz w = 1 + ctz (drop_bit 1 w)"
    proof (rule ctz_eqI)
      from ctz_bit[OF d] show "bit w (1 + ctz (drop_bit 1 w))" by (simp add: bit_drop_bit_eq)
    next
      fix k assume k: "k < 1 + ctz (drop_bit 1 w)"
      show "\<not> bit w k"
      proof (cases k)
        case 0
        with False show ?thesis by simp
      next
        case (Suc m)
        with k have "m < ctz (drop_bit 1 w)" by simp
        then have "\<not> bit (drop_bit 1 w) m" by (rule ctz_below)
        with Suc show ?thesis by (simp add: bit_drop_bit_eq)
      qed
    qed
    with nz False show ?thesis by simp
  qed
qed

lemma bit_flip1: "(\<And>k. k < i \<Longrightarrow> \<not> bit w k) \<Longrightarrow>
   bit (NOT (w XOR NOT (push_bit i (- 1)))) k \<longleftrightarrow> (k < LENGTH('a) \<and> i \<le> k \<and> \<not> bit (w::'a::len word) k)"
  by (auto simp: bit_simps)

lemma bit_flip2: 
   "bit (w XOR NOT (push_bit j (- 1))) k \<longleftrightarrow> (k < LENGTH('a) \<and> (if k < j then \<not> bit (w::'a::len word) k else bit w k))"
  by (auto simp: bit_simps dest: bit_imp_le_length)

declare nextRange_skip.simps [simp del] nextRange_extend.simps [simp del]

definition it_measure :: "'a::len word BitVectorRangeIterator \<Rightarrow> nat \<times> nat" where
  "it_measure it = (it_end it - it_idx it, unat (it_bitWord it))"

lemma skip_True:
  "nextRange_skip B it = Some (True, it1) \<Longrightarrow>
     it_bitWord it1 \<noteq> 0 \<and> it_end it1 = it_end it \<and> it_data it1 = it_data it \<and>
     (it1 = it \<or> (it_idx it < it_idx it1 \<and> it_idx it1 < it_end it))"
proof (induction B it rule: nextRange_skip.induct)
  case (1 B it)
  show ?case
  proof (cases "it_bitWord it = 0")
    case False
    with "1.prems" show ?thesis by (simp add: nextRange_skip.simps[of B it])
  next
    case True
    let ?it1 = "it\<lparr>it_idx := it_idx it + LENGTH('a)\<rparr>"
    let ?it2 = "?it1\<lparr>it_ptr := it_ptr it + 1,
                 it_bitWord := (it_data it ! (it_ptr it + 1)) XOR kXorMask B\<rparr>"
    from True "1.prems" have c: "\<not> it_end it \<le> it_idx it + LENGTH('a)" "it_ptr it + 1 < length (it_data it)"
      and r: "nextRange_skip B ?it2 = Some (True, it1)"
      by (auto simp: nextRange_skip.simps[of B it] Let_def split: if_splits)
    from "1.IH"[OF True refl _ _ r] c
    have "it_bitWord it1 \<noteq> 0 \<and> it_end it1 = it_end ?it2 \<and> it_data it1 = it_data ?it2 \<and>
     (it1 = ?it2 \<or> (it_idx ?it2 < it_idx it1 \<and> it_idx it1 < it_end ?it2))" by simp
    with c show ?thesis by auto
  qed
qed

lemma extend_props:
  "nextRange_extend B h s e it = Some (e', it') \<Longrightarrow> it_bitWord it = 0 \<Longrightarrow>
     it_end it' = it_end it \<and> it_data it' = it_data it \<and>
     ((it' = it) \<or> (it_idx it < it_idx it' \<and> (it_idx it' < it_end it \<or> it_bitWord it' = 0)))"
proof (induction B h s e it rule: nextRange_extend.induct)
  case (1 B h s e it)
  show ?case
  proof (cases "size_t_sub e s < h")
    case False
    with "1.prems" show ?thesis by (simp add: nextRange_extend.simps[of B h s e it])
  next
    case True
    note h = True
    let ?it1 = "it\<lparr>it_idx := it_idx it + LENGTH('a)\<rparr>"
    show ?thesis
    proof (cases "it_end it \<le> it_idx it + LENGTH('a)")
      case True
      with h "1.prems" show ?thesis by (auto simp: nextRange_extend.simps[of B h s e it])
    next
      case False
      note c = False
      with h "1.prems" have p: "it_ptr it + 1 < length (it_data it)"
        by (auto simp: nextRange_extend.simps[of B h s e it] Let_def split: if_splits)
      let ?w = "(it_data it ! (it_ptr it + 1)) XOR kXorMask B"
      let ?it2 = "?it1\<lparr>it_ptr := it_ptr it + 1\<rparr>"
      show ?thesis
      proof (cases "?w = - 1")
        case False
        with h c p "1.prems" show ?thesis
          by (auto simp: nextRange_extend.simps[of B h s e it] Let_def)
      next
        case True
        with h c p "1.prems" have r: "nextRange_extend B h s (min (it_idx ?it2 + LENGTH('a)) (it_end ?it2)) (?it2\<lparr>it_bitWord := 0\<rparr>) = Some (e', it')"
          by (simp add: nextRange_extend.simps[of B h s e it] Let_def)
        have "\<not> ?w \<noteq> - 1" using True by simp
        from "1.IH"[OF h refl _ p refl refl this r] c
        show ?thesis by auto
      qed
    qed
  qed
qed


lemma word_sub_less:
  fixes w w' :: "'a::len word"
  assumes sub: "\<And>k. bit w' k \<Longrightarrow> bit w k" and i: "bit w i" "\<not> bit w' i"
  shows "unat w' < unat w"
proof -
  have "w' AND w = w'" using sub by (auto simp: bit_eq_iff bit_simps)
  then have "w' \<le> w" by (metis word_and_le1)
  moreover have "w' \<noteq> w" using i by auto
  ultimately have "w' < w" by simp
  then show ?thesis by (simp add: word_less_nat_alt)
qed

lemma nextRange_decreases:
  assumes "nextRange B it h = Some (Some r, it')"
  shows "(it_measure it', it_measure it) \<in> less_than <*lex*> less_than"
    and "it_end it' = it_end it" and "it_data it' = it_data it"
proof -
  from assms obtain it1 where sk: "nextRange_skip B it = Some (True, it1)"
    by (auto simp: nextRange_def split: option.splits bool.splits)
  note s = skip_True[OF sk]
  define i where "i = ctz (it_bitWord it1)"
  define bw where "bw = NOT (it_bitWord it1 XOR NOT (push_bit i (- 1)))"
  define j where "j = ctz bw"
  define bw' where "bw' = NOT (bw XOR NOT (push_bit j (- 1)))"
  have nz: "it_bitWord it1 \<noteq> 0" using s by simp
  have bw: "\<And>k. bit bw k \<longleftrightarrow> (k < LENGTH('a) \<and> i \<le> k \<and> \<not> bit (it_bitWord it1) k)"
    unfolding bw_def i_def by (rule bit_flip1) (rule ctz_below)
  have m1: "it_measure it1 = it_measure it \<or> (it_measure it1, it_measure it) \<in> less_than <*lex*> less_than"
    using s by (auto simp: it_measure_def)
  have "(it_measure it', it_measure it1) \<in> less_than <*lex*> less_than \<and> it_end it' = it_end it1 \<and> it_data it' = it_data it1"
  proof (cases "bw = 0")
    case True
    with assms sk obtain e where ex: "nextRange_extend B h (it_idx it1 + i) (min (it_idx it1 + LENGTH('a)) (it_end it1)) (it1\<lparr>it_bitWord := bw\<rparr>) = Some (e, it')"
      unfolding nextRange_def Let_def bw_def i_def by (auto split: option.splits)
    from extend_props[OF ex] True nz show ?thesis
      by (auto simp: it_measure_def unat_gt_0)
  next
    case False
    from False assms sk have it': "it' = it1\<lparr>it_bitWord := bw'\<rparr>"
      unfolding nextRange_def Let_def bw_def i_def bw'_def j_def by auto
    have b2: "\<And>k. bit bw' k \<longleftrightarrow> (k < LENGTH('a) \<and> j \<le> k \<and> \<not> bit bw k)"
      unfolding bw'_def j_def by (rule bit_flip1) (rule ctz_below)
    have bi: "bit (it_bitWord it1) i" unfolding i_def using nz by (rule ctz_bit)
    have ji: "i < j"
    proof -
      have "bit bw j" unfolding j_def using False by (rule ctz_bit)
      then have "i \<le> j" "\<not> bit (it_bitWord it1) j" by (simp_all add: bw)
      with bi show ?thesis by (metis le_neq_implies_less)
    qed
    have "unat bw' < unat (it_bitWord it1)"
    proof (rule word_sub_less[where i = i])
      fix k assume "bit bw' k"
      then show "bit (it_bitWord it1) k" using ji by (auto simp: b2 bw)
    next
      show "bit (it_bitWord it1) i" by (rule bi)
    next
      show "\<not> bit bw' i" using ji by (simp add: b2)
    qed
    then show ?thesis by (simp add: it' it_measure_def)
  qed
  with m1 s show "(it_measure it', it_measure it) \<in> less_than <*lex*> less_than"
    and "it_end it' = it_end it" and "it_data it' = it_data it"
    by (auto simp: it_measure_def)
qed

section \<open>Loops over the iterator\<close>

text \<open>
  The loop of the unit test and of \<open>JitAllocatorImpl_wipeOutBlock\<close>:
  \<open>while (it.nextRange(&rangeStart, &rangeEnd)) ...\<close> with the default hint
  \<open>std::numeric_limits<size_t>::max()\<close>, collecting the ranges. \<open>None\<close> is a read
  outside the array.
\<close>

function nextRange_all ::
  "nat \<Rightarrow> 'a::len word BitVectorRangeIterator \<Rightarrow> (nat \<times> nat) list option" where
  "nextRange_all B it =
     (case nextRange B it SIZE_MAX of
        None \<Rightarrow> None
      | Some (None, it') \<Rightarrow> Some []
      | Some (Some r, it') \<Rightarrow>
          (case nextRange_all B it' of None \<Rightarrow> None | Some rs \<Rightarrow> Some (r # rs)))"
  by pat_completeness auto
termination
  by (relation "inv_image (less_than <*lex*> less_than) (\<lambda>(B, it). it_measure it)")
     (auto dest: nextRange_decreases(1))

definition kNoIndex :: nat where
  "kNoIndex = UINT32_MAX"

text \<open>
  The scan of one block in \<open>JitAllocator::alloc\<close>. The state of the loop is
  \<open>(areaIndex, rangeEnd, searchStart, largestArea)\<close>.
\<close>

function alloc_scan ::
  "nat \<Rightarrow> BitWord BitVectorRangeIterator \<Rightarrow> nat \<times> nat \<times> nat \<times> nat
     \<Rightarrow> (nat \<times> nat \<times> nat \<times> nat) option" where
  "alloc_scan areaSize it (areaIndex, rangeEnd, searchStart, largestArea) =
     (case nextRange 0 it areaSize of
        None \<Rightarrow> None
      | Some (None, it') \<Rightarrow> Some (areaIndex, rangeEnd, searchStart, largestArea)
      | Some (Some (rs, re), it') \<Rightarrow>
          let rangeSize = size_t_sub re rs
          in if areaSize \<le> rangeSize then Some (uint32_t rs, re, searchStart, largestArea)
             else alloc_scan areaSize it' (areaIndex, re, min searchStart rs, max largestArea rangeSize))"
  by pat_completeness auto
termination
  by (relation "inv_image (less_than <*lex*> less_than) (\<lambda>(a, it, s). it_measure it)")
     (auto dest: nextRange_decreases(1))

section \<open>Errors, options and flags\<close>

datatype Error =
    kErrorOk
  | kErrorOutOfMemory
  | kErrorInvalidArgument
  | kErrorInvalidState
  | kErrorNotInitialized
  | kErrorTooLarge
  | kErrorOther nat

datatype JitAllocatorOptions =
    kUseDualMapping
  | kUseMultiplePools
  | kFillUnusedMemory
  | kImmediateRelease
  | kDisableInitialPadding
  | kCustomFillPattern

datatype ResetPolicy = kSoft | kHard

datatype BlockFlag = kFlagInitialPadding | kFlagEmpty | kFlagDirty | kFlagDualMapped

datatype HardenedRuntimeFlags = kEnabled | kMapJit

definition kJitAllocatorMultiPoolCount :: nat where
  "kJitAllocatorMultiPoolCount = 3"

definition kJitAllocatorBaseGranularity :: nat where
  "kJitAllocatorBaseGranularity = 64"

definition kJitAllocatorMaxBlockSize :: nat where
  "kJitAllocatorMaxBlockSize = 1024 * 1024 * 32"

section \<open>Block and pool\<close>

text \<open>
  A block refers to its pool by the pool's index in the allocator. Pointers into
  virtual memory are addresses; \<open>nullptr\<close> is 0. The contents of the mapped memory (the
  fill pattern) are not part of the model.
\<close>

record JitAllocatorBlock =
  b_pool :: nat
  b_rx :: nat
  b_rw :: nat
  b_blockSize :: nat
  b_flags :: "BlockFlag set"
  b_areaSize :: nat
  b_areaUsed :: nat
  b_largestUnusedArea :: nat
  b_searchStart :: nat
  b_searchEnd :: nat
  b_usedBitVector :: "BitWord list"
  b_stopBitVector :: "BitWord list"

text \<open>
  The list of a pool holds its blocks in list order. \<open>p_cursor\<close> points at a block of
  the list and is kept as that block's \<open>rx\<close> address (live blocks are distinct
  mappings).
\<close>

record JitAllocatorPool =
  p_blocks :: "JitAllocatorBlock list"
  p_cursor :: "nat option"
  p_blockCount :: nat
  p_granularity :: nat
  p_granularityLog2 :: nat
  p_emptyBlockCount :: nat
  p_totalAreaSize :: nat
  p_totalAreaUsed :: nat
  p_totalOverheadBytes :: nat

definition JitAllocatorPool_new :: "nat \<Rightarrow> JitAllocatorPool" where
  "JitAllocatorPool_new granularity =
     \<lparr>p_blocks = [], p_cursor = None, p_blockCount = 0,
      p_granularity = granularity mod 2 ^ 16,
      p_granularityLog2 = uint8_t (ctz (of_nat granularity :: 32 word)),
      p_emptyBlockCount = 0,
      p_totalAreaSize = 0, p_totalAreaUsed = 0, p_totalOverheadBytes = 0\<rparr>"

definition pool_reset :: "JitAllocatorPool \<Rightarrow> JitAllocatorPool" where
  "pool_reset pool =
     pool\<lparr>p_blocks := [], p_cursor := None, p_blockCount := 0,
          p_totalAreaSize := 0, p_totalAreaUsed := 0, p_totalOverheadBytes := 0\<rparr>"

definition byteSizeFromAreaSize :: "JitAllocatorPool \<Rightarrow> nat \<Rightarrow> nat" where
  "byteSizeFromAreaSize pool areaSize = size_t (areaSize * p_granularity pool)"

definition areaSizeFromByteSize :: "JitAllocatorPool \<Rightarrow> nat \<Rightarrow> nat" where
  "areaSizeFromByteSize pool size' =
     uint32_t (size_t (size' + p_granularity pool - 1) div 2 ^ p_granularityLog2 pool)"

definition bitWordCountFromAreaSize :: "nat \<Rightarrow> nat" where
  "bitWordCountFromAreaSize areaSize =
     alignUp areaSize kBitWordSizeInBits div kBitWordSizeInBits"

definition initialAreaStartByFlags :: "BlockFlag set \<Rightarrow> nat" where
  "initialAreaStartByFlags flags = (if kFlagInitialPadding \<in> flags then 1 else 0)"

definition hasFlag :: "JitAllocatorBlock \<Rightarrow> BlockFlag \<Rightarrow> bool" where
  "hasFlag b f = (f \<in> b_flags b)"

definition hasInitialPadding :: "JitAllocatorBlock \<Rightarrow> bool" where
  "hasInitialPadding b = hasFlag b kFlagInitialPadding"

definition initialAreaStart :: "JitAllocatorBlock \<Rightarrow> nat" where
  "initialAreaStart b = initialAreaStartByFlags (b_flags b)"

definition empty_block :: "JitAllocatorBlock \<Rightarrow> bool" where
  "empty_block b = hasFlag b kFlagEmpty"

definition isDirty :: "JitAllocatorBlock \<Rightarrow> bool" where
  "isDirty b = hasFlag b kFlagDirty"

definition areaAvailable :: "JitAllocatorBlock \<Rightarrow> nat" where
  "areaAvailable b = uint32_sub (b_areaSize b) (b_areaUsed b)"

text \<open>\<open>memset(buf, 0, n * sizeof(BitWord))\<close>; writing past the array is \<open>None\<close>.\<close>

definition memsetZero :: "BitWord list \<Rightarrow> nat \<Rightarrow> BitWord list option" where
  "memsetZero buf n = (if length buf < n then None else Some (replicate n 0 @ drop n buf))"

definition clearBlock :: "JitAllocatorBlock \<Rightarrow> JitAllocatorBlock option" where
  "clearBlock b = do {
     let bit' = hasInitialPadding b;
     let numBitWords = bitWordCountFromAreaSize (b_areaSize b);
     used0 \<leftarrow> memsetZero (b_usedBitVector b) numBitWords;
     stop0 \<leftarrow> memsetZero (b_stopBitVector b) numBitWords;
     used1 \<leftarrow> bitVectorSetBit used0 0 bit';
     stop1 \<leftarrow> bitVectorSetBit stop0 0 bit';
     let start = initialAreaStartByFlags (b_flags b);
     Some (b\<lparr>b_usedBitVector := used1, b_stopBitVector := stop1,
              b_areaUsed := start,
              b_largestUnusedArea := uint32_sub (b_areaSize b) start,
              b_searchStart := start,
              b_searchEnd := b_areaSize b,
              b_flags := (b_flags b \<union> {kFlagEmpty}) - {kFlagDirty}\<rparr>)
   }"

text \<open>
  The three marking operations change the block and the \<open>totalAreaUsed\<close> counter of
  its pool; they return both.
\<close>

definition markAllocatedArea ::
  "JitAllocatorPool \<Rightarrow> JitAllocatorBlock \<Rightarrow> nat \<Rightarrow> nat
     \<Rightarrow> (JitAllocatorPool \<times> JitAllocatorBlock) option" where
  "markAllocatedArea pool b allocatedAreaStart allocatedAreaEnd = do {
     let allocatedAreaSize = uint32_sub allocatedAreaEnd allocatedAreaStart;
     used \<leftarrow> bitVectorFill (b_usedBitVector b) allocatedAreaStart allocatedAreaSize;
     stop \<leftarrow> bitVectorSetBit (b_stopBitVector b) (uint32_sub allocatedAreaEnd 1) True;
     let pool1 = pool\<lparr>p_totalAreaUsed := size_t (p_totalAreaUsed pool + allocatedAreaSize)\<rparr>;
     let b1 = b\<lparr>b_usedBitVector := used, b_stopBitVector := stop,
                 b_areaUsed := uint32_t (b_areaUsed b + allocatedAreaSize)\<rparr>;
     if areaAvailable b1 = 0 then
       Some (pool1, b1\<lparr>b_searchStart := b_areaSize b1, b_searchEnd := 0,
                       b_largestUnusedArea := 0,
                       b_flags := b_flags b1 - {kFlagDirty, kFlagEmpty}\<rparr>)
     else
       Some (pool1,
             b1\<lparr>b_searchStart := (if b_searchStart b1 = allocatedAreaStart
                                   then allocatedAreaEnd else b_searchStart b1),
                 b_searchEnd := (if b_searchEnd b1 = allocatedAreaEnd
                                 then allocatedAreaStart else b_searchEnd b1),
                 b_flags := (b_flags b1 \<union> {kFlagDirty}) - {kFlagEmpty}\<rparr>)
   }"

definition markReleasedArea ::
  "JitAllocatorPool \<Rightarrow> JitAllocatorBlock \<Rightarrow> nat \<Rightarrow> nat
     \<Rightarrow> (JitAllocatorPool \<times> JitAllocatorBlock) option" where
  "markReleasedArea pool b releasedAreaStart releasedAreaEnd = do {
     let releasedAreaSize = uint32_sub releasedAreaEnd releasedAreaStart;
     let pool1 = pool\<lparr>p_totalAreaUsed := size_t_sub (p_totalAreaUsed pool) releasedAreaSize\<rparr>;
     let b1 = b\<lparr>b_areaUsed := uint32_sub (b_areaUsed b) releasedAreaSize,
                 b_searchStart := min (b_searchStart b) releasedAreaStart,
                 b_searchEnd := max (b_searchEnd b) releasedAreaEnd\<rparr>;
     used \<leftarrow> bitVectorClear (b_usedBitVector b1) releasedAreaStart releasedAreaSize;
     stop \<leftarrow> bitVectorSetBit (b_stopBitVector b1) (uint32_sub releasedAreaEnd 1) False;
     let b2 = b1\<lparr>b_usedBitVector := used, b_stopBitVector := stop\<rparr>;
     if b_areaUsed b2 = initialAreaStart b2 then
       Some (pool1, b2\<lparr>b_searchStart := initialAreaStart b2,
                       b_searchEnd := b_areaSize b2,
                       b_largestUnusedArea := uint32_sub (b_areaSize b2) (initialAreaStart b2),
                       b_flags := (b_flags b2 \<union> {kFlagEmpty}) - {kFlagDirty}\<rparr>)
     else
       Some (pool1, b2\<lparr>b_flags := b_flags b2 \<union> {kFlagDirty}\<rparr>)
   }"

text \<open>The two assertions of \<open>markShrunkArea\<close> are checked first; a failed one is \<open>None\<close>.\<close>

definition markShrunkArea ::
  "JitAllocatorPool \<Rightarrow> JitAllocatorBlock \<Rightarrow> nat \<Rightarrow> nat
     \<Rightarrow> (JitAllocatorPool \<times> JitAllocatorBlock) option" where
  "markShrunkArea pool b shrunkAreaStart shrunkAreaEnd = do {
     let shrunkAreaSize = uint32_sub shrunkAreaEnd shrunkAreaStart;
     _ \<leftarrow> (if shrunkAreaStart = 0 \<or> shrunkAreaSize = 0 then None else Some ());
     let pool1 = pool\<lparr>p_totalAreaUsed := size_t_sub (p_totalAreaUsed pool) shrunkAreaSize\<rparr>;
     let b1 = b\<lparr>b_areaUsed := uint32_sub (b_areaUsed b) shrunkAreaSize,
                 b_searchStart := min (b_searchStart b) shrunkAreaStart,
                 b_searchEnd := max (b_searchEnd b) shrunkAreaEnd\<rparr>;
     used \<leftarrow> bitVectorClear (b_usedBitVector b1) shrunkAreaStart shrunkAreaSize;
     stop0 \<leftarrow> bitVectorSetBit (b_stopBitVector b1) (uint32_sub shrunkAreaEnd 1) False;
     stop \<leftarrow> bitVectorSetBit stop0 (uint32_sub shrunkAreaStart 1) True;
     Some (pool1, b1\<lparr>b_usedBitVector := used, b_stopBitVector := stop,
                     b_flags := b_flags b1 \<union> {kFlagDirty}\<rparr>)
   }"

section \<open>The allocator\<close>

record JitAllocatorPrivateImpl =
  i_options :: "JitAllocatorOptions set"
  i_blockSize :: nat
  i_granularity :: nat
  i_fillPattern :: nat
  i_pageSize :: nat
  i_allocationCount :: nat
  i_pools :: "JitAllocatorPool list"

text \<open>
  A \<open>JitAllocator\<close> holds either a \<open>JitAllocatorPrivateImpl\<close> or the shared
  \<open>JitAllocatorImpl_none\<close>, which is \<open>None\<close> here.
\<close>

type_synonym JitAllocator = "JitAllocatorPrivateImpl option"

record CreateParams =
  cp_options :: "JitAllocatorOptions set"
  cp_blockSize :: nat
  cp_granularity :: nat
  cp_fillPattern :: nat

definition JitAllocatorParams_none :: CreateParams where
  "JitAllocatorParams_none =
     \<lparr>cp_options = {}, cp_blockSize = 0, cp_granularity = 0, cp_fillPattern = 0\<rparr>"

text \<open>
  What the platform answers while an allocator is constructed: \<open>VirtMem::info()\<close>,
  \<open>VirtMem::hardenedRuntimeInfo()\<close>, the macro \<open>ASMJIT_ARCH_X86\<close> and whether
  \<open>::malloc\<close> succeeds. They are inputs of the model.
\<close>

record Platform =
  vmInfo_pageSize :: nat
  vmInfo_pageGranularity :: nat
  hardenedRtInfo_flags :: "HardenedRuntimeFlags set"
  arch_x86 :: bool
  malloc_impl_ok :: bool

definition JitAllocator_defaultFillPattern :: "Platform \<Rightarrow> nat" where
  "JitAllocator_defaultFillPattern plat = (if arch_x86 plat then 0xCCCCCCCC else 0)"

definition JitAllocatorImpl_new :: "Platform \<Rightarrow> CreateParams option \<Rightarrow> JitAllocatorPrivateImpl option" where
  "JitAllocatorImpl_new plat params0 =
     (let params = (case params0 of None \<Rightarrow> JitAllocatorParams_none | Some p \<Rightarrow> p);
          options = cp_options params;
          blockSize = cp_blockSize params;
          granularity = cp_granularity params;
          fillPattern = cp_fillPattern params;
          poolCount = (if kUseMultiplePools \<in> options then kJitAllocatorMultiPoolCount else 1);
          blockSize = (if blockSize < 64 * 1024 \<or> 256 * 1024 * 1024 < blockSize \<or> \<not> isPowerOf2 blockSize
                       then vmInfo_pageGranularity plat else blockSize);
          granularity = (if granularity < 64 \<or> 256 < granularity \<or> \<not> isPowerOf2 granularity
                         then kJitAllocatorBaseGranularity else granularity);
          fillPattern = (if kCustomFillPattern \<notin> options
                         then JitAllocator_defaultFillPattern plat else fillPattern)
      in if \<not> malloc_impl_ok plat then None
         else
           let options = (if kEnabled \<in> hardenedRtInfo_flags plat \<and> kMapJit \<notin> hardenedRtInfo_flags plat
                          then options \<union> {kUseDualMapping} else options)
           in Some \<lparr>i_options = options, i_blockSize = blockSize, i_granularity = granularity,
                     i_fillPattern = fillPattern, i_pageSize = vmInfo_pageSize plat,
                     i_allocationCount = 0,
                     i_pools = map (\<lambda>poolId. JitAllocatorPool_new (uint32_t (granularity * 2 ^ poolId)))
                                   [0..<poolCount]\<rparr>)"

definition JitAllocator_new :: "Platform \<Rightarrow> CreateParams option \<Rightarrow> JitAllocator" where
  "JitAllocator_new plat params = JitAllocatorImpl_new plat params"

fun sizeToPoolId_loop :: "nat \<Rightarrow> nat \<Rightarrow> nat \<Rightarrow> nat" where
  "sizeToPoolId_loop size' poolId granularity =
     (if poolId = 0 then poolId
      else if alignUp size' granularity = size' then poolId
      else sizeToPoolId_loop size' (poolId - 1) (granularity div 2))"

declare sizeToPoolId_loop.simps [simp del]

definition JitAllocatorImpl_sizeToPoolId :: "JitAllocatorPrivateImpl \<Rightarrow> nat \<Rightarrow> nat" where
  "JitAllocatorImpl_sizeToPoolId impl size' =
     (let poolId = length (i_pools impl) - 1;
          granularity = size_t (i_granularity impl * 2 ^ poolId)
      in sizeToPoolId_loop size' poolId granularity)"

definition JitAllocatorImpl_bitVectorSizeToByteSize :: "nat \<Rightarrow> nat" where
  "JitAllocatorImpl_bitVectorSizeToByteSize areaSize =
     (uint32_t (areaSize + kBitWordSizeInBits - 1) div kBitWordSizeInBits) * 8"

text \<open>
  \<open>sizeof(JitAllocatorBlock)\<close> on the 64-bit platform assumed here; only the overhead
  statistic depends on it.
\<close>

definition sizeof_JitAllocatorBlock :: nat where
  "sizeof_JitAllocatorBlock = 104"

definition JitAllocatorImpl_calculateIdealBlockSize ::
  "JitAllocatorPrivateImpl \<Rightarrow> JitAllocatorPool \<Rightarrow> nat \<Rightarrow> nat" where
  "JitAllocatorImpl_calculateIdealBlockSize impl pool allocationSize0 =
     (let blockSize = (if p_blocks pool = [] then i_blockSize impl
                       else b_blockSize (last (p_blocks pool)))
      in if kDisableInitialPadding \<notin> i_options impl \<and> SIZE_MAX - allocationSize0 < 64 then 0
         else
           let allocationSize = (if kDisableInitialPadding \<notin> i_options impl
                                 then allocationSize0 + 64 else allocationSize0);
               blockSize = (if blockSize < kJitAllocatorMaxBlockSize
                            then size_t (blockSize * 2) else blockSize)
           in if blockSize < allocationSize then
                let blockSize = alignUp allocationSize (i_blockSize impl)
                in if blockSize < allocationSize then 0 else blockSize
              else blockSize)"

text \<open>
  What the host answers during one call of \<open>alloc\<close> that needs a new block: whether
  \<open>::malloc\<close> of the block header succeeds, and the error code and the addresses
  returned by \<open>VirtMem::alloc\<close> or \<open>VirtMem::allocDualMapping\<close>.
\<close>

record VirtMemOutcome =
  malloc_ok :: bool
  vm_err :: Error
  vm_rx :: nat
  vm_rw :: nat

text \<open>
  \<open>JitAllocatorImpl_newBlock\<close>: \<open>Inl err\<close> is the error return, \<open>Inr block\<close> is
  \<open>kErrorOk\<close> with the block stored in \<open>*dst\<close>. The constructor of the block runs
  \<open>clearBlock\<close> on the two fresh bit vectors of \<open>numBitWords\<close> words each.
\<close>

definition JitAllocatorImpl_newBlock ::
  "JitAllocatorPrivateImpl \<Rightarrow> JitAllocatorPool \<Rightarrow> nat \<Rightarrow> nat \<Rightarrow> VirtMemOutcome
     \<Rightarrow> (Error + JitAllocatorBlock) option" where
  "JitAllocatorImpl_newBlock impl pool poolId blockSize vm =
     (let areaSize = uint32_t (size_t (blockSize + p_granularity pool - 1) div 2 ^ p_granularityLog2 pool);
          numBitWords = uint32_t (areaSize + kBitWordSizeInBits - 1) div kBitWordSizeInBits
      in if \<not> malloc_ok vm then Some (Inl kErrorOutOfMemory)
         else
           let blockFlags = (if kDisableInitialPadding \<notin> i_options impl
                             then {kFlagInitialPadding} else {});
               dual = (kUseDualMapping \<in> i_options impl);
               blockFlags = (if dual then blockFlags \<union> {kFlagDualMapped} else blockFlags);
               rx = vm_rx vm;
               rw = (if dual then vm_rw vm else vm_rx vm)
           in if vm_err vm \<noteq> kErrorOk then Some (Inl (vm_err vm))
              else
                case clearBlock
                       \<lparr>b_pool = poolId, b_rx = rx, b_rw = rw, b_blockSize = blockSize,
                        b_flags = blockFlags, b_areaSize = areaSize, b_areaUsed = 0,
                        b_largestUnusedArea = 0, b_searchStart = 0, b_searchEnd = 0,
                        b_usedBitVector = replicate numBitWords 0,
                        b_stopBitVector = replicate numBitWords 0\<rparr> of
                  None \<Rightarrow> None
                | Some block \<Rightarrow> Some (Inr block))"

text \<open>
  Modelled from the spec: the address tree (\<open>ZoneTree\<close>, zonetree.h). It is "an ordered
  tree keyed by block's RX address range, for pointer to block lookup". Every block enters
  and leaves the tree together with the list of its pool (\<open>insertBlock\<close>,
  \<open>removeBlock\<close>, \<open>reset\<close>), so the tree holds the blocks of all pools, and
  \<open>tree.get(key)\<close> is the block for which neither \<open>block < key\<close> nor \<open>block > key\<close>
  holds. The result is the position of the block: the index of its pool and its index
  in the pool's list.
\<close>

definition block_lt_key :: "JitAllocatorBlock \<Rightarrow> nat \<Rightarrow> bool" where
  "block_lt_key b key = (b_rx b + b_blockSize b \<le> key)"

definition block_gt_key :: "JitAllocatorBlock \<Rightarrow> nat \<Rightarrow> bool" where
  "block_gt_key b key = (key < b_rx b)"

definition tree_blocks :: "JitAllocatorPrivateImpl \<Rightarrow> (nat \<times> nat) list" where
  "tree_blocks impl =
     concat (map (\<lambda>poolId. map (\<lambda>k. (poolId, k)) [0..<length (p_blocks (i_pools impl ! poolId))])
                 [0..<length (i_pools impl)])"

definition block_at :: "JitAllocatorPrivateImpl \<Rightarrow> nat \<times> nat \<Rightarrow> JitAllocatorBlock" where
  "block_at impl pos = p_blocks (i_pools impl ! fst pos) ! snd pos"

definition tree_get :: "JitAllocatorPrivateImpl \<Rightarrow> nat \<Rightarrow> (nat \<times> nat) option" where
  "tree_get impl key =
     find (\<lambda>pos. \<not> block_lt_key (block_at impl pos) key \<and> \<not> block_gt_key (block_at impl pos) key)
          (tree_blocks impl)"

text \<open>
  \<open>insertBlock\<close> and \<open>removeBlock\<close> as they act on the pool of the block (the tree
  follows the lists). \<open>removeBlock\<close> takes the index of the block in the list.
\<close>

definition JitAllocatorImpl_insertBlock :: "JitAllocatorPool \<Rightarrow> JitAllocatorBlock \<Rightarrow> JitAllocatorPool" where
  "JitAllocatorImpl_insertBlock pool block =
     pool\<lparr>p_cursor := (if p_cursor pool = None then Some (b_rx block) else p_cursor pool),
          p_blocks := p_blocks pool @ [block],
          p_blockCount := uint32_t (p_blockCount pool + 1),
          p_totalAreaSize := size_t (p_totalAreaSize pool + b_areaSize block),
          p_totalAreaUsed := size_t (p_totalAreaUsed pool + b_areaUsed block),
          p_totalOverheadBytes :=
            size_t (p_totalOverheadBytes pool + sizeof_JitAllocatorBlock
                    + JitAllocatorImpl_bitVectorSizeToByteSize (b_areaSize block) * 2)\<rparr>"

definition JitAllocatorImpl_removeBlock :: "JitAllocatorPool \<Rightarrow> nat \<Rightarrow> JitAllocatorPool" where
  "JitAllocatorImpl_removeBlock pool k =
     (let block = p_blocks pool ! k;
          prevOrNext = (if 0 < k then Some (b_rx (p_blocks pool ! (k - 1)))
                        else if k + 1 < length (p_blocks pool) then Some (b_rx (p_blocks pool ! (k + 1)))
                        else None)
      in pool\<lparr>p_cursor := (if p_cursor pool = Some (b_rx block) then prevOrNext else p_cursor pool),
              p_blocks := take k (p_blocks pool) @ drop (Suc k) (p_blocks pool),
              p_blockCount := uint32_sub (p_blockCount pool) 1,
              p_totalAreaSize := size_t_sub (p_totalAreaSize pool) (b_areaSize block),
              p_totalAreaUsed := size_t_sub (p_totalAreaUsed pool) (b_areaUsed block),
              p_totalOverheadBytes :=
                size_t_sub (p_totalOverheadBytes pool)
                  (sizeof_JitAllocatorBlock
                   + JitAllocatorImpl_bitVectorSizeToByteSize (b_areaSize block) * 2)\<rparr>)"

text \<open>
  \<open>wipeOutBlock\<close>: the fill of the mapped memory leaves the allocator state alone, so
  what remains is \<open>clearBlock\<close> on a block that is not flagged empty.
\<close>

definition JitAllocatorImpl_wipeOutBlock :: "JitAllocatorBlock \<Rightarrow> JitAllocatorBlock option" where
  "JitAllocatorImpl_wipeOutBlock block =
     (if hasFlag block kFlagEmpty then Some block else clearBlock block)"

subsection \<open>reset\<close>

text \<open>
  One turn of the loop over the pools in \<open>JitAllocator::reset\<close>. With a soft reset and
  no \<open>kImmediateRelease\<close> the code reads \<open>block->next()\<close> of the first block without
  testing it, which dereferences \<open>nullptr\<close> when the pool has no block: \<open>None\<close>.
\<close>

definition reset_pool ::
  "JitAllocatorPrivateImpl \<Rightarrow> ResetPolicy \<Rightarrow> JitAllocatorPool \<Rightarrow> JitAllocatorPool option" where
  "reset_pool impl resetPolicy pool =
     (if resetPolicy \<noteq> kHard \<and> kImmediateRelease \<notin> i_options impl then
        (case p_blocks pool of
           [] \<Rightarrow> None
         | blockToKeep # others \<Rightarrow>
             (case JitAllocatorImpl_wipeOutBlock blockToKeep of
                None \<Rightarrow> None
              | Some block \<Rightarrow>
                  Some ((JitAllocatorImpl_insertBlock (pool_reset pool) block)\<lparr>p_emptyBlockCount := 1\<rparr>)))
      else Some (pool_reset pool))"

fun reset_pools ::
  "JitAllocatorPrivateImpl \<Rightarrow> ResetPolicy \<Rightarrow> JitAllocatorPool list \<Rightarrow> JitAllocatorPool list option" where
  "reset_pools impl resetPolicy [] = Some []"
| "reset_pools impl resetPolicy (pool # pools) =
     (case reset_pool impl resetPolicy pool of
        None \<Rightarrow> None
      | Some pool' \<Rightarrow>
          (case reset_pools impl resetPolicy pools of
             None \<Rightarrow> None
           | Some pools' \<Rightarrow> Some (pool' # pools')))"

definition reset :: "JitAllocator \<Rightarrow> ResetPolicy \<Rightarrow> JitAllocator option" where
  "reset a resetPolicy =
     (case a of
        None \<Rightarrow> Some None
      | Some impl \<Rightarrow>
          (case reset_pools impl resetPolicy (i_pools impl) of
             None \<Rightarrow> None
           | Some pools \<Rightarrow> Some (Some (impl\<lparr>i_pools := pools\<rparr>))))"

subsection \<open>alloc\<close>

text \<open>
  The search of \<open>alloc\<close> through the blocks of the pool, from \<open>pool->blocks.first()\<close>
  on and once around the list. The result is the position \<open>(k, areaIndex)\<close> of the area
  found in the \<open>k\<close>-th block, if any, and the blocks with the search hints that the
  loop has written back.
\<close>

definition alloc_scanBlock :: "JitAllocatorBlock \<Rightarrow> nat \<Rightarrow> (nat \<times> nat \<times> nat \<times> nat) option" where
  "alloc_scanBlock block areaSize =
     (case BitVectorRangeIterator_init 0 (b_usedBitVector block)
             (bitWordCountFromAreaSize (b_areaSize block)) (b_searchStart block) (b_searchEnd block) of
        None \<Rightarrow> None
      | Some it \<Rightarrow> alloc_scan areaSize it (kNoIndex, b_areaSize block, SIZE_MAX, 0))"

definition alloc_updateHints :: "JitAllocatorBlock \<Rightarrow> nat \<Rightarrow> nat \<Rightarrow> nat \<Rightarrow> JitAllocatorBlock" where
  "alloc_updateHints block searchStart searchEnd largestArea =
     block\<lparr>b_searchStart := uint32_t searchStart,
           b_searchEnd := uint32_t searchEnd,
           b_largestUnusedArea := uint32_t largestArea,
           b_flags := b_flags block - {kFlagDirty}\<rparr>"

fun alloc_search ::
  "nat \<Rightarrow> JitAllocatorBlock list \<Rightarrow> ((nat \<times> nat) option \<times> JitAllocatorBlock list) option" where
  "alloc_search areaSize [] = Some (None, [])"
| "alloc_search areaSize (block # rest) =
     (if areaSize \<le> areaAvailable block
         \<and> (isDirty block \<or> areaSize \<le> b_largestUnusedArea block) then
        (case alloc_scanBlock block areaSize of
           None \<Rightarrow> None
         | Some (areaIndex, rangeEnd, searchStart, largestArea) \<Rightarrow>
             if areaIndex \<noteq> kNoIndex then Some (Some (0, areaIndex), block # rest)
             else
               let block' = (if searchStart \<noteq> SIZE_MAX
                             then alloc_updateHints block searchStart rangeEnd largestArea
                             else block)
               in (case alloc_search areaSize rest of
                     None \<Rightarrow> None
                   | Some (found, rest') \<Rightarrow>
                       Some (map_option (\<lambda>(k, i). (Suc k, i)) found, block' # rest')))
      else
        (case alloc_search areaSize rest of
           None \<Rightarrow> None
         | Some (found, rest') \<Rightarrow>
             Some (map_option (\<lambda>(k, i). (Suc k, i)) found, block # rest')))"

text \<open>
  The tail of \<open>alloc\<close> from "Update statistics" on, for the \<open>k\<close>-th block of the pool.
  The assertion on the offset is checked as written.
\<close>

definition alloc_finish ::
  "JitAllocatorPrivateImpl \<Rightarrow> nat \<Rightarrow> JitAllocatorPool \<Rightarrow> nat \<Rightarrow> nat \<Rightarrow> nat \<Rightarrow> nat
     \<Rightarrow> (Error \<times> (nat \<times> nat) \<times> JitAllocator) option" where
  "alloc_finish impl poolId pool k areaIndex areaSize size' =
     (case markAllocatedArea pool (p_blocks pool ! k) areaIndex (uint32_t (areaIndex + areaSize)) of
        None \<Rightarrow> None
      | Some (pool', block') \<Rightarrow>
          let offset = byteSizeFromAreaSize pool' areaIndex
          in if \<not> offset \<le> size_t_sub (b_blockSize block') size' then None
             else Some (kErrorOk, (b_rx block' + offset, b_rw block' + offset),
                        Some (impl\<lparr>i_allocationCount := size_t (i_allocationCount impl + 1),
                                    i_pools := (i_pools impl)
                                      [poolId := pool'\<lparr>p_blocks := (p_blocks pool')[k := block']\<rparr>]\<rparr>)))"

text \<open>
  The branch "Allocate a new block if there is no region of a required size": \<open>pool\<close>
  is the pool after the search.
\<close>

definition alloc_newBlock ::
  "JitAllocatorPrivateImpl \<Rightarrow> VirtMemOutcome \<Rightarrow> nat \<Rightarrow> JitAllocatorPool \<Rightarrow> nat \<Rightarrow> nat
     \<Rightarrow> (Error \<times> (nat \<times> nat) \<times> JitAllocator) option" where
  "alloc_newBlock impl vm poolId pool areaSize size' =
     (let impl1 = impl\<lparr>i_pools := (i_pools impl)[poolId := pool]\<rparr>;
          blockSize = JitAllocatorImpl_calculateIdealBlockSize impl pool size'
      in if blockSize = 0 then Some (kErrorOutOfMemory, (0, 0), Some impl1)
         else
           (case JitAllocatorImpl_newBlock impl pool poolId blockSize vm of
              None \<Rightarrow> None
            | Some (Inl err) \<Rightarrow> Some (err, (0, 0), Some impl1)
            | Some (Inr block0) \<Rightarrow>
                let areaIndex = initialAreaStart block0;
                    pool2 = JitAllocatorImpl_insertBlock pool block0;
                    block1 = block0
                      \<lparr>b_searchStart := uint32_t (b_searchStart block0 + areaSize),
                       b_largestUnusedArea := uint32_sub (b_largestUnusedArea block0) areaSize\<rparr>;
                    k = length (p_blocks pool);
                    pool3 = pool2\<lparr>p_blocks := (p_blocks pool2)[k := block1]\<rparr>
                in alloc_finish impl poolId pool3 k areaIndex areaSize size'))"

text \<open>
  The branch for an area found in the \<open>k\<close>-th block: an empty block stops being the
  empty block of its pool.
\<close>

definition alloc_found ::
  "JitAllocatorPrivateImpl \<Rightarrow> nat \<Rightarrow> JitAllocatorPool \<Rightarrow> nat \<Rightarrow> nat \<Rightarrow> nat \<Rightarrow> nat
     \<Rightarrow> (Error \<times> (nat \<times> nat) \<times> JitAllocator) option" where
  "alloc_found impl poolId pool k areaIndex areaSize size' =
     (let block = p_blocks pool ! k;
          pool2 = (if hasFlag block kFlagEmpty
                   then pool\<lparr>p_emptyBlockCount := uint8_sub (p_emptyBlockCount pool) 1,
                             p_blocks := (p_blocks pool)[k := block\<lparr>b_flags := b_flags block - {kFlagEmpty}\<rparr>]\<rparr>
                   else pool)
      in alloc_finish impl poolId pool2 k areaIndex areaSize size')"

text \<open>\<open>alloc\<close> from the lock on, for the size already rounded up and checked.\<close>

definition alloc_locked ::
  "JitAllocatorPrivateImpl \<Rightarrow> VirtMemOutcome \<Rightarrow> nat
     \<Rightarrow> (Error \<times> (nat \<times> nat) \<times> JitAllocator) option" where
  "alloc_locked impl vm size' =
     (let poolId = JitAllocatorImpl_sizeToPoolId impl size';
          pool = i_pools impl ! poolId;
          areaSize = areaSizeFromByteSize pool size'
      in case alloc_search areaSize (p_blocks pool) of
           None \<Rightarrow> None
         | Some (None, blocks1) \<Rightarrow>
             alloc_newBlock impl vm poolId (pool\<lparr>p_blocks := blocks1\<rparr>) areaSize size'
         | Some (Some (k, areaIndex), blocks1) \<Rightarrow>
             alloc_found impl poolId (pool\<lparr>p_blocks := blocks1\<rparr>) k areaIndex areaSize size')"

text \<open>
  \<open>alloc a vm (rxPtrOut, rwPtrOut) size\<close>: the pair holds what the two output
  parameters point at before the call; the result is the error code, their contents
  after the call and the allocator. \<open>None\<close> is undefined behaviour.
\<close>

definition alloc ::
  "JitAllocator \<Rightarrow> VirtMemOutcome \<Rightarrow> nat \<times> nat \<Rightarrow> nat
     \<Rightarrow> (Error \<times> (nat \<times> nat) \<times> JitAllocator) option" where
  "alloc a vm outs size0 =
     (case a of
        None \<Rightarrow> Some (kErrorNotInitialized, outs, None)
      | Some impl \<Rightarrow>
          let size' = alignUp size0 (i_granularity impl)
          in if size' = 0 then Some (kErrorInvalidArgument, (0, 0), Some impl)
             else if UINT32_MAX div 2 < size' then Some (kErrorTooLarge, (0, 0), Some impl)
             else alloc_locked impl vm size')"

subsection \<open>release, shrink, query\<close>

text \<open>
  The position of the area that a pointer into a block falls in:
  \<open>uint32_t(offset >> pool->granularityLog2)\<close>.
\<close>

definition areaIndexOf :: "JitAllocatorPool \<Rightarrow> JitAllocatorBlock \<Rightarrow> nat \<Rightarrow> nat" where
  "areaIndexOf pool block rxPtr =
     uint32_t (size_t_sub rxPtr (b_rx block) div 2 ^ p_granularityLog2 pool)"

text \<open>\<open>uint32_t(Support::bitVectorIndexOf(block->_stopBitVector, areaIndex, true)) + 1\<close>.\<close>

definition areaEndOf :: "JitAllocatorBlock \<Rightarrow> nat \<Rightarrow> nat option" where
  "areaEndOf block areaIndex =
     map_option (\<lambda>stopIndex. uint32_t (uint32_t stopIndex + 1))
       (bitVectorIndexOf (b_stopBitVector block) areaIndex True)"

definition release :: "JitAllocator \<Rightarrow> nat \<Rightarrow> (Error \<times> JitAllocator) option" where
  "release a rxPtr =
     (case a of
        None \<Rightarrow> Some (kErrorNotInitialized, None)
      | Some impl \<Rightarrow>
          if rxPtr = 0 then Some (kErrorInvalidArgument, Some impl)
          else
            (case tree_get impl rxPtr of
               None \<Rightarrow> Some (kErrorInvalidState, Some impl)
             | Some (poolId, k) \<Rightarrow> do {
                 let pool = i_pools impl ! poolId;
                 let block = p_blocks pool ! k;
                 let areaIndex = areaIndexOf pool block rxPtr;
                 areaEnd \<leftarrow> areaEndOf block areaIndex;
                 (pool1, block1) \<leftarrow> markReleasedArea pool block areaIndex areaEnd;
                 let pool2 = pool1\<lparr>p_blocks := (p_blocks pool1)[k := block1]\<rparr>;
                 let pool3 = (if empty_block block1 then
                                if p_emptyBlockCount pool2 \<noteq> 0 \<or> kImmediateRelease \<in> i_options impl
                                then JitAllocatorImpl_removeBlock pool2 k
                                else pool2\<lparr>p_emptyBlockCount := uint8_t (p_emptyBlockCount pool2 + 1)\<rparr>
                              else pool2);
                 Some (kErrorOk,
                       Some (impl\<lparr>i_allocationCount := size_t_sub (i_allocationCount impl) 1,
                                   i_pools := (i_pools impl)[poolId := pool3]\<rparr>))
               }))"

definition shrink :: "JitAllocator \<Rightarrow> nat \<Rightarrow> nat \<Rightarrow> (Error \<times> JitAllocator) option" where
  "shrink a rxPtr newSize =
     (case a of
        None \<Rightarrow> Some (kErrorNotInitialized, None)
      | Some impl \<Rightarrow>
          if rxPtr = 0 then Some (kErrorInvalidArgument, Some impl)
          else if newSize = 0 then release a rxPtr
          else
            (case tree_get impl rxPtr of
               None \<Rightarrow> Some (kErrorInvalidArgument, Some impl)
             | Some (poolId, k) \<Rightarrow> do {
                 let pool = i_pools impl ! poolId;
                 let block = p_blocks pool ! k;
                 let areaStart = areaIndexOf pool block rxPtr;
                 isUsed \<leftarrow> bitVectorGetBit (b_usedBitVector block) areaStart;
                 if \<not> isUsed then Some (kErrorInvalidArgument, Some impl)
                 else do {
                   areaEnd \<leftarrow> areaEndOf block areaStart;
                   let areaPrevSize = uint32_sub areaEnd areaStart;
                   let areaShrunkSize = areaSizeFromByteSize pool newSize;
                   if areaPrevSize < areaShrunkSize then Some (kErrorInvalidState, Some impl)
                   else
                     let areaDiff = uint32_sub areaPrevSize areaShrunkSize
                     in if areaDiff \<noteq> 0 then do {
                          (pool1, block1) \<leftarrow>
                             markShrunkArea pool block (uint32_t (areaStart + areaShrunkSize)) areaEnd;
                          Some (kErrorOk,
                                Some (impl\<lparr>i_pools := (i_pools impl)
                                        [poolId := pool1\<lparr>p_blocks := (p_blocks pool1)[k := block1]\<rparr>]\<rparr>))
                        }
                        else Some (kErrorOk, Some impl)
                 }
               }))"

text \<open>
  \<open>query a rxPtr (rxPtrOut, rwPtrOut, sizeOut)\<close>: the triple holds what the three
  output parameters point at before the call; the result is the error code and their
  contents after it. The method is \<open>const\<close>: the allocator is as before.
\<close>

definition query :: "JitAllocator \<Rightarrow> nat \<Rightarrow> nat \<times> nat \<times> nat \<Rightarrow> (Error \<times> (nat \<times> nat \<times> nat)) option" where
  "query a rxPtr outs =
     (let outs0 = (0, 0, 0)
      in case a of
           None \<Rightarrow> Some (kErrorNotInitialized, outs0)
         | Some impl \<Rightarrow>
             (case tree_get impl rxPtr of
                None \<Rightarrow> Some (kErrorInvalidArgument, outs0)
              | Some (poolId, k) \<Rightarrow> do {
                  let pool = i_pools impl ! poolId;
                  let block = p_blocks pool ! k;
                  let areaStart = areaIndexOf pool block rxPtr;
                  isUsed \<leftarrow> bitVectorGetBit (b_usedBitVector block) areaStart;
                  if \<not> isUsed then Some (kErrorInvalidArgument, outs0)
                  else do {
                    areaEnd \<leftarrow> areaEndOf block areaStart;
                    let byteOffset = byteSizeFromAreaSize pool areaStart;
                    let byteSize = byteSizeFromAreaSize pool (uint32_sub areaEnd areaStart);
                    Some (kErrorOk, (b_rx block + byteOffset, b_rw block + byteOffset, byteSize))
                  }
                }))"

subsection \<open>Sequences of operations\<close>

datatype Op =
    OpAlloc VirtMemOutcome nat
  | OpRelease nat
  | OpShrink nat nat
  | OpQuery nat
  | OpReset ResetPolicy

text \<open>The allocator after one operation; \<open>None\<close> when the operation is undefined.\<close>

fun step :: "JitAllocator \<Rightarrow> Op \<Rightarrow> JitAllocator option" where
  "step a (OpAlloc vm n) = map_option (\<lambda>(err, outs, a'). a') (alloc a vm (0, 0) n)"
| "step a (OpRelease p) = map_option snd (release a p)"
| "step a (OpShrink p n) = map_option snd (shrink a p n)"
| "step a (OpQuery p) = map_option (\<lambda>r. a) (query a p (0, 0, 0))"
| "step a (OpReset policy) = reset a policy"

fun run :: "JitAllocator \<Rightarrow> Op list \<Rightarrow> JitAllocator option" where
  "run a [] = Some a"
| "run a (op # ops) = (case step a op of None \<Rightarrow> None | Some a' \<Rightarrow> run a' ops)"

section \<open>A concrete allocator\<close>

text \<open>
  A platform with 4 KiB pages and 64 KiB allocation granularity, an allocator with
  granularity 256 on it, and the state after \<open>alloc(100)\<close> when the virtual memory
  service maps the new block at address \<open>0x100000\<close>. The block has 512 areas; area 0 is
  the initial padding and area 1 the allocation.
\<close>

definition example_platform :: Platform where
  "example_platform =
     \<lparr>vmInfo_pageSize = 4096, vmInfo_pageGranularity = 65536, hardenedRtInfo_flags = {},
      arch_x86 = True, malloc_impl_ok = True\<rparr>"

definition example_params :: CreateParams where
  "example_params =
     \<lparr>cp_options = {}, cp_blockSize = 0, cp_granularity = 256, cp_fillPattern = 0\<rparr>"

definition example_vm :: VirtMemOutcome where
  "example_vm = \<lparr>malloc_ok = True, vm_err = kErrorOk, vm_rx = 1048576, vm_rw = 1048576\<rparr>"


definition example_impl0 :: JitAllocatorPrivateImpl where
  "example_impl0 =
     \<lparr>i_options = {}, i_blockSize = 65536, i_granularity = 256,
      i_fillPattern = 3435973836, i_pageSize = 4096, i_allocationCount = 0,
      i_pools =
        [\<lparr>p_blocks = [], p_cursor = None, p_blockCount = 0,
          p_granularity = 256, p_granularityLog2 = 8,
          p_emptyBlockCount = 0, p_totalAreaSize = 0, p_totalAreaUsed = 0,
          p_totalOverheadBytes = 0\<rparr>]\<rparr>"

definition example_impl1 :: JitAllocatorPrivateImpl where
  "example_impl1 =
     \<lparr>i_options = {}, i_blockSize = 65536, i_granularity = 256,
      i_fillPattern = 3435973836, i_pageSize = 4096, i_allocationCount = 1,
      i_pools =
        [\<lparr>p_blocks =
            [\<lparr>b_pool = 0, b_rx = 1048576, b_rw = 1048576,
              b_blockSize = 131072,
              b_flags = {kFlagInitialPadding, kFlagDirty},
              b_areaSize = 512, b_areaUsed = 2,
              b_largestUnusedArea = 510, b_searchStart = 2,
              b_searchEnd = 512,
              b_usedBitVector = [3, 0, 0, 0, 0, 0, 0, 0],
              b_stopBitVector = [3, 0, 0, 0, 0, 0, 0, 0]\<rparr>],
          p_cursor = Some 1048576, p_blockCount = 1, p_granularity = 256,
          p_granularityLog2 = 8, p_emptyBlockCount = 0,
          p_totalAreaSize = 512, p_totalAreaUsed = 2,
          p_totalOverheadBytes = 232\<rparr>]\<rparr>"

section \<open>Evaluation\<close>

text \<open>
  The defining equations, collected for the evaluation of the operations on concrete
  states by the simplifier.
\<close>

lemma replicate_numeral_eval: "replicate (numeral k) x = x # replicate (pred_numeral k) x"
  by (simp add: numeral_eq_Suc)

lemma upt_0_numeral_eval: "[0..<numeral n] = 0 # [Suc 0..<numeral n]"
  by (rule upt_conv_Cons) simp

lemma upt_1_numeral_eval:
  "[Suc 0..<numeral n] = (if Suc 0 < numeral n then Suc 0 # [2..<numeral n] else [])"
proof -
  have "[Suc 0..<numeral n] = (if Suc 0 < numeral n then Suc 0 # [Suc (Suc 0)..<numeral n] else [])"
    by (rule upt_rec)
  moreover have "Suc (Suc 0) = 2" by simp
  ultimately show ?thesis by (simp only:)
qed

lemma list_update_numeral_eval: "(x # xs)[numeral n := y] = x # xs[pred_numeral n := y]"
  by (simp add: numeral_eq_Suc)

lemmas list_evals = replicate_numeral_eval upt_0_numeral_eval upt_1_numeral_eval
  list_update_numeral_eval upt_rec_numeral insert_Diff_if insert_commute

lemmas int_defs = SIZE_MAX_def UINT32_MAX_def size_t_def uint32_t_def uint8_t_def size_t_sub_def
  uint32_sub_def uint8_sub_def kBitWordSizeInBits_def alignUp_def alignDown_def

lemmas bv_defs = bitAt_def bitVectorGetBit_def bitVectorSetBit_def rangeMask_def wordRangeMask_def
  bitVectorFill_def bitVectorClear_def bitVectorIndexOf.simps mask_eq_exp_minus_1 set_bit_eq_or
  unset_bit_eq_and_not ctz_unfold list_evals

lemmas it_defs = kXorMask_def BitVectorRangeIterator_init_def nextRange_skip.simps
  nextRange_extend.simps nextRange_def kNoIndex_def Let_def

lemmas block_defs = kJitAllocatorMultiPoolCount_def kJitAllocatorBaseGranularity_def
  kJitAllocatorMaxBlockSize_def JitAllocatorPool_new_def pool_reset_def byteSizeFromAreaSize_def
  areaSizeFromByteSize_def bitWordCountFromAreaSize_def initialAreaStartByFlags_def hasFlag_def
  hasInitialPadding_def initialAreaStart_def empty_block_def isDirty_def areaAvailable_def
  memsetZero_def clearBlock_def markAllocatedArea_def markReleasedArea_def markShrunkArea_def

lemmas impl_defs = JitAllocatorParams_none_def JitAllocator_defaultFillPattern_def
  JitAllocatorImpl_new_def JitAllocator_new_def sizeToPoolId_loop.simps
  JitAllocatorImpl_sizeToPoolId_def JitAllocatorImpl_bitVectorSizeToByteSize_def
  sizeof_JitAllocatorBlock_def JitAllocatorImpl_calculateIdealBlockSize_def
  JitAllocatorImpl_newBlock_def block_lt_key_def block_gt_key_def tree_blocks_def block_at_def
  tree_get_def JitAllocatorImpl_insertBlock_def JitAllocatorImpl_removeBlock_def
  JitAllocatorImpl_wipeOutBlock_def reset_pool_def reset_def isPowerOf2.simps

lemmas op_defs = alloc_scanBlock_def alloc_updateHints_def alloc_finish_def alloc_newBlock_def
  alloc_found_def alloc_locked_def alloc_def
  areaIndexOf_def areaEndOf_def release_def shrink_def query_def alloc_scan.simps

lemmas eval_defs = int_defs bv_defs it_defs block_defs impl_defs op_defs

lemma example_new:
  "JitAllocator_new example_platform (Some example_params) = Some example_impl0"
  by (simp add: example_platform_def example_params_def example_impl0_def eval_defs
           split del: if_split)

lemma example_alloc:
  "alloc (Some example_impl0) example_vm (7, 7) 100
     = Some (kErrorOk, (1048832, 1048832), Some example_impl1)"
  by (simp add: example_impl0_def example_impl1_def example_vm_def eval_defs
           split del: if_split)

section \<open>Pointers outside every block\<close>

definition in_live_block :: "JitAllocatorPrivateImpl \<Rightarrow> nat \<Rightarrow> bool" where
  "in_live_block impl p =
     (\<exists>pool \<in> set (i_pools impl). \<exists>b \<in> set (p_blocks pool).
        b_rx b \<le> p \<and> p < b_rx b + b_blockSize b)"

lemma tree_blocks_valid:
  "(poolId, k) \<in> set (tree_blocks impl) \<longleftrightarrow>
     poolId < length (i_pools impl) \<and> k < length (p_blocks (i_pools impl ! poolId))"
  by (force simp: tree_blocks_def)

lemma tree_get_None_iff: "tree_get impl p = None \<longleftrightarrow> \<not> in_live_block impl p"
proof
  assume n: "tree_get impl p = None"
  show "\<not> in_live_block impl p"
  proof
    assume "in_live_block impl p"
    then obtain pool b where pb: "pool \<in> set (i_pools impl)" "b \<in> set (p_blocks pool)"
      and r: "b_rx b \<le> p" "p < b_rx b + b_blockSize b"
      by (auto simp: in_live_block_def)
    from pb obtain poolId k where ix: "poolId < length (i_pools impl)" "i_pools impl ! poolId = pool"
      "k < length (p_blocks pool)" "p_blocks pool ! k = b"
      by (auto simp: in_set_conv_nth)
    then have "(poolId, k) \<in> set (tree_blocks impl)" by (simp add: tree_blocks_valid)
    moreover have "\<not> block_lt_key (block_at impl (poolId, k)) p \<and> \<not> block_gt_key (block_at impl (poolId, k)) p"
      using ix r by (simp add: block_at_def block_lt_key_def block_gt_key_def)
    ultimately show False using n by (auto simp: tree_get_def find_None_iff)
  qed
next
  assume n: "\<not> in_live_block impl p"
  have "\<And>pos. pos \<in> set (tree_blocks impl) \<Longrightarrow>
          block_lt_key (block_at impl pos) p \<or> block_gt_key (block_at impl pos) p"
  proof -
    fix pos assume "pos \<in> set (tree_blocks impl)"
    then have v: "fst pos < length (i_pools impl)" "snd pos < length (p_blocks (i_pools impl ! fst pos))"
      using tree_blocks_valid[of "fst pos" "snd pos" impl] by simp_all
    then have "i_pools impl ! fst pos \<in> set (i_pools impl)"
      "block_at impl pos \<in> set (p_blocks (i_pools impl ! fst pos))"
      by (simp_all add: block_at_def)
    with n show "block_lt_key (block_at impl pos) p \<or> block_gt_key (block_at impl pos) p"
      by (auto simp: in_live_block_def block_lt_key_def block_gt_key_def not_le not_less)
  qed
  then show "tree_get impl p = None" by (auto simp: tree_get_def find_None_iff)
qed

text \<open>
  C1, as the code has it. A non-null pointer outside every live block makes \<open>release\<close>
  fail with \<open>kErrorInvalidState\<close>, while \<open>shrink\<close> (with a non-zero size) and \<open>query\<close>
  fail with \<open>kErrorInvalidArgument\<close>; the allocator is as before.
\<close>

theorem unknown_pointer_errors:
  assumes "p \<noteq> 0" and "\<not> in_live_block impl p"
  shows "release (Some impl) p = Some (kErrorInvalidState, Some impl)
       \<and> (0 < n \<longrightarrow> shrink (Some impl) p n = Some (kErrorInvalidArgument, Some impl))
       \<and> query (Some impl) p outs = Some (kErrorInvalidArgument, (0, 0, 0))"
proof -
  from assms(2) have "tree_get impl p = None" by (simp add: tree_get_None_iff)
  with assms(1) show ?thesis by (simp add: release_def shrink_def query_def)
qed

lemma example_pointer_outside: "\<not> in_live_block example_impl1 4096"
  by (simp add: in_live_block_def example_impl1_def)

theorem unknown_pointer_errors_witness:
  "(4096::nat) \<noteq> 0 \<and> \<not> in_live_block example_impl1 4096
   \<and> release (Some example_impl1) 4096 = Some (kErrorInvalidState, Some example_impl1)
   \<and> shrink (Some example_impl1) 4096 8 = Some (kErrorInvalidArgument, Some example_impl1)
   \<and> query (Some example_impl1) 4096 (1, 2, 3) = Some (kErrorInvalidArgument, (0, 0, 0))"
proof -
  have h: "(4096::nat) \<noteq> 0" by simp
  from unknown_pointer_errors[OF h example_pointer_outside, of 8 "(1, 2, 3)"]
  show ?thesis using example_pointer_outside by simp
qed

text \<open>
  The claim C1 as stated asks for \<open>kErrorInvalidState\<close> from all three operations; at
  the pointer \<open>4096\<close>, outside the only block of the example, \<open>shrink\<close> and \<open>query\<close>
  answer \<open>kErrorInvalidArgument\<close>.
\<close>

theorem unknown_pointer_counterexample:
  "\<not> in_live_block example_impl1 4096
   \<and> shrink (Some example_impl1) 4096 8 \<noteq> Some (kErrorInvalidState, Some example_impl1)
   \<and> shrink (Some example_impl1) 4096 8 = Some (kErrorInvalidArgument, Some example_impl1)
   \<and> query (Some example_impl1) 4096 (1, 2, 3) = Some (kErrorInvalidArgument, (0, 0, 0))"
proof -
  have t: "tree_get example_impl1 4096 = None"
    using example_pointer_outside by (simp add: tree_get_None_iff)
  then show ?thesis using example_pointer_outside by (simp add: shrink_def query_def)
qed

section \<open>Output parameters\<close>

text \<open>
  C10. \<open>query\<close> stores \<open>(nullptr, nullptr, 0)\<close> in its output parameters before any
  check, so every failing call leaves exactly these values; \<open>alloc\<close> on the
  not-initialized allocator returns \<open>kErrorNotInitialized\<close> and leaves its two output
  parameters as they were.
\<close>

theorem query_failure_outputs:
  assumes "query a rxPtr outs = Some (err, outs')" and "err \<noteq> kErrorOk"
  shows "outs' = (0, 0, 0)
       \<and> query None rxPtr outs = Some (kErrorNotInitialized, (0, 0, 0))
       \<and> alloc None vm aouts n = Some (kErrorNotInitialized, aouts, None)"
  using assms
  by (auto simp: query_def alloc_def Let_def split: option.splits if_splits Option.bind_splits)

lemma example_query_free_area:
  "query (Some example_impl1) (1048576 + 5 * 256) (1, 2, 3)
     = Some (kErrorInvalidArgument, (0, 0, 0))"
  by (simp add: example_impl1_def eval_defs split del: if_split)

theorem query_failure_outputs_witness:
  "query (Some example_impl1) (1048576 + 5 * 256) (1, 2, 3) = Some (kErrorInvalidArgument, (0, 0, 0))
   \<and> kErrorInvalidArgument \<noteq> kErrorOk
   \<and> query None 4096 (1, 2, 3) = Some (kErrorNotInitialized, (0, 0, 0))
   \<and> alloc None example_vm (7, 7) 8 = Some (kErrorNotInitialized, (7, 7), None)"
proof -
  have h: "kErrorInvalidArgument \<noteq> kErrorOk" by simp
  from query_failure_outputs[OF example_query_free_area h, of example_vm "(7, 7)" 8]
  show ?thesis using example_query_free_area
    by (simp add: query_def)
qed

section \<open>The size checks of alloc\<close>

lemma alloc_finish_Ok:
  "alloc_finish impl poolId pool k areaIndex areaSize size' = Some (err, outs, a') \<Longrightarrow> err = kErrorOk"
  by (auto simp: alloc_finish_def Let_def split: option.splits if_splits)

lemma alloc_found_Ok:
  "alloc_found impl poolId pool k areaIndex areaSize size' = Some (err, outs, a') \<Longrightarrow> err = kErrorOk"
  by (auto simp: alloc_found_def Let_def dest: alloc_finish_Ok)

lemma newBlock_error:
  "JitAllocatorImpl_newBlock impl pool poolId blockSize vm = Some (Inl err) \<Longrightarrow>
     err = kErrorOutOfMemory \<or> (err = vm_err vm \<and> vm_err vm \<noteq> kErrorOk)"
  by (auto simp: JitAllocatorImpl_newBlock_def Let_def split: if_splits option.splits)

lemma alloc_newBlock_error:
  assumes "alloc_newBlock impl vm poolId pool areaSize size' = Some (err, outs, a')"
  shows "err = kErrorOk \<or> err = kErrorOutOfMemory \<or> (err = vm_err vm \<and> vm_err vm \<noteq> kErrorOk)"
proof (cases "JitAllocatorImpl_calculateIdealBlockSize impl pool size' = 0")
  case True
  with assms show ?thesis by (simp add: alloc_newBlock_def Let_def)
next
  case False
  note bz = False
  show ?thesis
  proof (cases "JitAllocatorImpl_newBlock impl pool poolId
                  (JitAllocatorImpl_calculateIdealBlockSize impl pool size') vm")
    case None
    with assms bz show ?thesis by (simp add: alloc_newBlock_def Let_def)
  next
    case (Some nb)
    show ?thesis
    proof (cases nb)
      case (Inl e)
      with Some assms bz have "err = e" by (simp add: alloc_newBlock_def Let_def)
      with Some Inl newBlock_error show ?thesis by blast
    next
      case (Inr block0)
      with Some assms bz show ?thesis
        by (auto simp: alloc_newBlock_def Let_def dest: alloc_finish_Ok)
    qed
  qed
qed

lemma alloc_locked_error:
  assumes "alloc_locked impl vm size' = Some (err, outs, a')"
  shows "err = kErrorOk \<or> err = kErrorOutOfMemory \<or> (err = vm_err vm \<and> vm_err vm \<noteq> kErrorOk)"
  using assms
  by (auto simp: alloc_locked_def Let_def split: option.splits
           dest: alloc_found_Ok alloc_newBlock_error)

lemma alloc_error_cases:
  assumes "alloc (Some impl) vm outs n = Some (err, outs', a')"
    and "alignUp n (i_granularity impl) \<noteq> 0"
    and "\<not> UINT32_MAX div 2 < alignUp n (i_granularity impl)"
  shows "err = kErrorOk \<or> err = kErrorOutOfMemory \<or> (err = vm_err vm \<and> vm_err vm \<noteq> kErrorOk)"
  using assms by (auto simp: alloc_def Let_def dest: alloc_locked_error)

text \<open>
  C6, as the code has it. On an initialized allocator, \<open>alloc\<close> returns
  \<open>kErrorInvalidArgument\<close> when the size rounded up to the granularity is 0, and
  \<open>kErrorTooLarge\<close> when the rounded size exceeds \<open>UINT32_MAX / 2\<close>; in both cases the
  allocator is returned as it was. A call that returns \<open>kErrorInvalidArgument\<close> either
  has a rounded size of 0 or has been given this code by the virtual memory service
  while mapping a new block: \<open>alloc\<close> hands the code of the service on.
\<close>

theorem alloc_size_checks:
  "(alignUp n (i_granularity impl) = 0 \<longrightarrow>
      alloc (Some impl) vm outs n = Some (kErrorInvalidArgument, (0, 0), Some impl))
   \<and> (UINT32_MAX div 2 < alignUp n (i_granularity impl) \<longrightarrow>
      alloc (Some impl) vm outs n = Some (kErrorTooLarge, (0, 0), Some impl))
   \<and> (alloc (Some impl) vm outs n = Some (kErrorInvalidArgument, outs', a') \<longrightarrow>
      alignUp n (i_granularity impl) = 0 \<or> vm_err vm = kErrorInvalidArgument)"
proof (intro conjI impI)
  assume "alignUp n (i_granularity impl) = 0"
  then show "alloc (Some impl) vm outs n = Some (kErrorInvalidArgument, (0, 0), Some impl)"
    by (simp add: alloc_def)
next
  assume "UINT32_MAX div 2 < alignUp n (i_granularity impl)"
  then show "alloc (Some impl) vm outs n = Some (kErrorTooLarge, (0, 0), Some impl)"
    by (simp add: alloc_def Let_def)
next
  assume h: "alloc (Some impl) vm outs n = Some (kErrorInvalidArgument, outs', a')"
  show "alignUp n (i_granularity impl) = 0 \<or> vm_err vm = kErrorInvalidArgument"
  proof (cases "alignUp n (i_granularity impl) = 0")
    case True
    then show ?thesis by simp
  next
    case False
    note nz = False
    show ?thesis
    proof (cases "UINT32_MAX div 2 < alignUp n (i_granularity impl)")
      case True
      with nz h show ?thesis by (simp add: alloc_def Let_def)
    next
      case False
      from alloc_error_cases[OF h nz False] show ?thesis by auto
    qed
  qed
qed

definition example_vm_invalid :: VirtMemOutcome where
  "example_vm_invalid = \<lparr>malloc_ok = True, vm_err = kErrorInvalidArgument, vm_rx = 0, vm_rw = 0\<rparr>"

lemma example_alloc_zero:
  "alloc (Some example_impl1) example_vm (7, 7) 0
     = Some (kErrorInvalidArgument, (0, 0), Some example_impl1)"
  by (simp add: alloc_def alignUp_def size_t_def example_impl1_def)

lemma example_alloc_vm_invalid:
  "alloc (Some example_impl0) example_vm_invalid (7, 7) 100
     = Some (kErrorInvalidArgument, (0, 0), Some example_impl0)"
  by (simp add: example_impl0_def example_vm_invalid_def eval_defs split del: if_split)

theorem alloc_size_checks_witness:
  "alignUp 0 (i_granularity example_impl1) = 0
   \<and> alloc (Some example_impl1) example_vm (7, 7) 0
       = Some (kErrorInvalidArgument, (0, 0), Some example_impl1)
   \<and> UINT32_MAX div 2 < alignUp 2147483648 (i_granularity example_impl1)
   \<and> alloc (Some example_impl1) example_vm (7, 7) 2147483648
       = Some (kErrorTooLarge, (0, 0), Some example_impl1)
   \<and> alloc (Some example_impl0) example_vm_invalid (7, 7) 100
       = Some (kErrorInvalidArgument, (0, 0), Some example_impl0)
   \<and> (alignUp 100 (i_granularity example_impl0) = 0 \<or> vm_err example_vm_invalid = kErrorInvalidArgument)"
proof -
  have z: "alignUp 0 (i_granularity example_impl1) = 0"
    by (simp add: alignUp_def size_t_def example_impl1_def)
  have l: "UINT32_MAX div 2 < alignUp 2147483648 (i_granularity example_impl1)"
    by (simp add: alignUp_def size_t_def UINT32_MAX_def example_impl1_def)
  note t0 = alloc_size_checks[of 0 example_impl1 example_vm "(7, 7)" "(0, 0)" "Some example_impl1"]
  note t1 = alloc_size_checks[of 2147483648 example_impl1 example_vm "(7, 7)" "(0, 0)" "Some example_impl1"]
  note t2 = alloc_size_checks[of 100 example_impl0 example_vm_invalid "(7, 7)" "(0, 0)" "Some example_impl0"]
  have a0: "alloc (Some example_impl1) example_vm (7, 7) 0
              = Some (kErrorInvalidArgument, (0, 0), Some example_impl1)"
    using t0[THEN conjunct1] z by (rule mp)
  have a1: "alloc (Some example_impl1) example_vm (7, 7) 2147483648
              = Some (kErrorTooLarge, (0, 0), Some example_impl1)"
    using t1[THEN conjunct2, THEN conjunct1] l by (rule mp)
  have a2: "alignUp 100 (i_granularity example_impl0) = 0 \<or> vm_err example_vm_invalid = kErrorInvalidArgument"
    using t2[THEN conjunct2, THEN conjunct2] example_alloc_vm_invalid by (rule mp)
  from z a0 l a1 example_alloc_vm_invalid a2 show ?thesis by (intro conjI)
qed

text \<open>
  The claim C6 as stated has \<open>kErrorInvalidArgument\<close> exactly when the rounded size is 0.
  When the virtual memory service answers the mapping of the first block with
  \<open>kErrorInvalidArgument\<close>, \<open>alloc(100)\<close> returns that code although the rounded size is 256.
\<close>

theorem alloc_size_checks_counterexample:
  "alignUp 100 (i_granularity example_impl0) = 256
   \<and> alloc (Some example_impl0) example_vm_invalid (7, 7) 100
       = Some (kErrorInvalidArgument, (0, 0), Some example_impl0)"
proof -
  have "alignUp 100 (i_granularity example_impl0) = 256"
    by (simp add: alignUp_def size_t_def example_impl0_def)
  with example_alloc_vm_invalid show ?thesis by (intro conjI)
qed

section \<open>The size of a new block\<close>

text \<open>
  The arithmetic of \<open>JitAllocatorImpl_calculateIdealBlockSize\<close> without the overflow
  exits: \<open>B\<close> is the size of the last block of the pool, or the configured block size
  when the pool has no block.
\<close>

definition lastBlockSize :: "JitAllocatorPrivateImpl \<Rightarrow> JitAllocatorPool \<Rightarrow> nat" where
  "lastBlockSize impl pool =
     (if p_blocks pool = [] then i_blockSize impl else b_blockSize (last (p_blocks pool)))"

definition paddedSize :: "JitAllocatorPrivateImpl \<Rightarrow> nat \<Rightarrow> nat" where
  "paddedSize impl n = (if kDisableInitialPadding \<in> i_options impl then n else n + 64)"

definition nextBlockSize :: "nat \<Rightarrow> nat" where
  "nextBlockSize B = (if B < kJitAllocatorMaxBlockSize then 2 * B else B)"

definition roundUpTo :: "nat \<Rightarrow> nat \<Rightarrow> nat" where
  "roundUpTo n a = ((n + a - 1) div a) * a"

lemma roundUpTo_ge: "0 < a \<Longrightarrow> n \<le> roundUpTo n a"
proof -
  assume a: "0 < a"
  have "n + a - 1 < ((n + a - 1) div a) * a + a"
    using a by (metis add.commute dividend_less_div_times mult.commute)
  then show ?thesis using a by (simp add: roundUpTo_def)
qed

lemma roundUpTo_lt: "0 < a \<Longrightarrow> roundUpTo n a < n + a"
proof -
  assume a: "0 < a"
  have "((n + a - 1) div a) * a \<le> n + a - 1" by simp
  moreover have "n + a - 1 < n + a" using a by simp
  ultimately show ?thesis unfolding roundUpTo_def by (rule le_less_trans)
qed

lemma alignUp_roundUpTo:
  assumes "0 < a" and "n + a \<le> 2 ^ 64"
  shows "alignUp n a = roundUpTo n a"
proof -
  from assms have "n + (a - 1) < 2 ^ 64" by simp
  then have "size_t (n + (a - 1)) = n + (a - 1)" by (simp add: size_t_def)
  moreover from assms have "n + (a - 1) = n + a - 1" by simp
  ultimately show ?thesis by (simp add: alignUp_def roundUpTo_def)
qed

text \<open>
  The value of \<open>JitAllocatorImpl_calculateIdealBlockSize\<close> for an allocation size that
  has passed the size checks of \<open>alloc\<close> (at most \<open>UINT32_MAX / 2\<close>) and a configured
  block size that fits its \<open>uint32_t\<close> field.
\<close>

lemma calculateIdealBlockSize_value:
  assumes "n \<le> UINT32_MAX div 2" and "0 < i_blockSize impl" and "i_blockSize impl < 2 ^ 32"
  shows "JitAllocatorImpl_calculateIdealBlockSize impl pool n =
           (if nextBlockSize (lastBlockSize impl pool) < paddedSize impl n
            then roundUpTo (paddedSize impl n) (i_blockSize impl)
            else nextBlockSize (lastBlockSize impl pool))
       \<and> (2 * lastBlockSize impl pool \<le> kJitAllocatorMaxBlockSize
            \<or> lastBlockSize impl pool = kJitAllocatorMaxBlockSize \<longrightarrow>
          nextBlockSize (lastBlockSize impl pool)
            = min kJitAllocatorMaxBlockSize (2 * lastBlockSize impl pool))"
proof
  let ?B = "lastBlockSize impl pool"
  let ?p = "paddedSize impl n"
  have n: "n < 2 ^ 31" using assms(1) by (simp add: UINT32_MAX_def)
  then have p: "?p < 2 ^ 31 + 64" by (simp add: paddedSize_def)
  have nofl: "\<not> (kDisableInitialPadding \<notin> i_options impl \<and> SIZE_MAX - n < 64)"
    using n by (auto simp: SIZE_MAX_def)
  have dbl: "(if ?B < kJitAllocatorMaxBlockSize then size_t (?B * 2) else ?B) = nextBlockSize ?B"
    by (simp add: nextBlockSize_def size_t_def kJitAllocatorMaxBlockSize_def)
  have au: "alignUp ?p (i_blockSize impl) = roundUpTo ?p (i_blockSize impl)"
    using assms(2,3) p by (intro alignUp_roundUpTo) simp_all
  have ge: "\<not> roundUpTo ?p (i_blockSize impl) < ?p"
    using roundUpTo_ge[OF assms(2), of ?p] by simp
  show "JitAllocatorImpl_calculateIdealBlockSize impl pool n =
           (if nextBlockSize ?B < ?p then roundUpTo ?p (i_blockSize impl) else nextBlockSize ?B)"
  proof (cases "kDisableInitialPadding \<in> i_options impl")
    case True
    then have pp: "?p = n" by (simp add: paddedSize_def)
    from True dbl ge au show ?thesis
      unfolding JitAllocatorImpl_calculateIdealBlockSize_def lastBlockSize_def[symmetric] pp
      by (simp add: Let_def)
  next
    case False
    then have pp: "?p = n + 64" by (simp add: paddedSize_def)
    from False nofl have s: "\<not> SIZE_MAX - n < 64" by simp
    from False s dbl ge au show ?thesis
      unfolding JitAllocatorImpl_calculateIdealBlockSize_def lastBlockSize_def[symmetric] pp
      by (simp add: Let_def)
  qed
next
  show "2 * lastBlockSize impl pool \<le> kJitAllocatorMaxBlockSize
            \<or> lastBlockSize impl pool = kJitAllocatorMaxBlockSize \<longrightarrow>
          nextBlockSize (lastBlockSize impl pool)
            = min kJitAllocatorMaxBlockSize (2 * lastBlockSize impl pool)"
    by (auto simp: nextBlockSize_def kJitAllocatorMaxBlockSize_def)
qed

text \<open>
  A pool of the example allocator whose only block has 24 MiB, the size that a request
  of \<open>24 MiB - 256\<close> bytes gives to the first block; the request fills the block.
\<close>

definition example_block_24M :: JitAllocatorBlock where
  "example_block_24M =
     \<lparr>b_pool = 0, b_rx = 1048576, b_rw = 1048576,
      b_blockSize = 25165824,
      b_flags = {kFlagInitialPadding},
      b_areaSize = 98304, b_areaUsed = 98304,
      b_largestUnusedArea = 0, b_searchStart = 98304, b_searchEnd = 0,
      b_usedBitVector = replicate 1536 (- 1),
      b_stopBitVector = 1 # replicate 1534 0 @ [9223372036854775808]\<rparr>"

definition example_pool_24M :: JitAllocatorPool where
  "example_pool_24M =
     \<lparr>p_blocks = [example_block_24M],
      p_cursor = Some 1048576, p_blockCount = 1, p_granularity = 256,
      p_granularityLog2 = 8, p_emptyBlockCount = 0,
      p_totalAreaSize = 98304, p_totalAreaUsed = 98304,
      p_totalOverheadBytes = 24680\<rparr>"

lemma example_first_block_24M:
  "JitAllocatorImpl_calculateIdealBlockSize example_impl0 (hd (i_pools example_impl0)) 25165568
     = 25165824"
  by (simp add: JitAllocatorImpl_calculateIdealBlockSize_def example_impl0_def Let_def
        SIZE_MAX_def kJitAllocatorMaxBlockSize_def size_t_def alignUp_def)

section \<open>What the operations change\<close>

text \<open>
  The search hints of a block are \<open>searchStart\<close>, \<open>searchEnd\<close>, \<open>largestUnusedArea\<close> and
  the flag \<open>kFlagDirty\<close>; \<open>strip_hints\<close> forgets them.
\<close>

definition strip_hints :: "JitAllocatorBlock \<Rightarrow> JitAllocatorBlock" where
  "strip_hints b =
     b\<lparr>b_searchStart := 0, b_searchEnd := 0, b_largestUnusedArea := 0,
       b_flags := b_flags b - {kFlagDirty}\<rparr>"

definition same_but_hints :: "JitAllocatorBlock \<Rightarrow> JitAllocatorBlock \<Rightarrow> bool" where
  "same_but_hints b b' = (strip_hints b' = strip_hints b)"

lemma same_but_hints_refl [simp]: "same_but_hints b b"
  by (simp add: same_but_hints_def)

lemma same_but_hints_updateHints [simp]: "same_but_hints b (alloc_updateHints b s e l)"
  by (simp add: same_but_hints_def strip_hints_def alloc_updateHints_def)

lemma same_but_hints_fields:
  assumes "same_but_hints b b'"
  shows "b_pool b' = b_pool b" and "b_rx b' = b_rx b" and "b_rw b' = b_rw b"
    and "b_blockSize b' = b_blockSize b" and "b_areaSize b' = b_areaSize b"
    and "b_areaUsed b' = b_areaUsed b"
    and "b_usedBitVector b' = b_usedBitVector b" and "b_stopBitVector b' = b_stopBitVector b"
    and "b_flags b' - {kFlagDirty} = b_flags b - {kFlagDirty}"
proof -
  from assms have e: "strip_hints b' = strip_hints b" by (simp add: same_but_hints_def)
  from arg_cong[OF e, of b_pool] show "b_pool b' = b_pool b" by (simp add: strip_hints_def)
  from arg_cong[OF e, of b_rx] show "b_rx b' = b_rx b" by (simp add: strip_hints_def)
  from arg_cong[OF e, of b_rw] show "b_rw b' = b_rw b" by (simp add: strip_hints_def)
  from arg_cong[OF e, of b_blockSize] show "b_blockSize b' = b_blockSize b" by (simp add: strip_hints_def)
  from arg_cong[OF e, of b_areaSize] show "b_areaSize b' = b_areaSize b" by (simp add: strip_hints_def)
  from arg_cong[OF e, of b_areaUsed] show "b_areaUsed b' = b_areaUsed b" by (simp add: strip_hints_def)
  from arg_cong[OF e, of b_usedBitVector] show "b_usedBitVector b' = b_usedBitVector b" by (simp add: strip_hints_def)
  from arg_cong[OF e, of b_stopBitVector] show "b_stopBitVector b' = b_stopBitVector b" by (simp add: strip_hints_def)
  from arg_cong[OF e, of b_flags] show "b_flags b' - {kFlagDirty} = b_flags b - {kFlagDirty}" by (simp add: strip_hints_def)
qed

lemma same_but_hints_flag:
  "same_but_hints b b' \<Longrightarrow> f \<noteq> kFlagDirty \<Longrightarrow> f \<in> b_flags b' \<longleftrightarrow> f \<in> b_flags b"
  using same_but_hints_fields(9)[of b b'] by blast

text \<open>The search of \<open>alloc\<close> changes nothing but hints, and not the block it finds.\<close>

lemma alloc_search_same:
  "alloc_search areaSize blocks = Some (found, blocks') \<Longrightarrow>
     list_all2 same_but_hints blocks blocks'"
proof (induction blocks arbitrary: found blocks')
  case Nil
  then show ?case by simp
next
  case (Cons block rest)
  show ?case
  proof (cases "areaSize \<le> areaAvailable block
                 \<and> (isDirty block \<or> areaSize \<le> b_largestUnusedArea block)")
    case False
    with Cons.prems obtain f r where r: "alloc_search areaSize rest = Some (f, r)"
      and b: "blocks' = block # r"
      by (auto split: option.splits)
    from Cons.IH[OF r] b show ?thesis by simp
  next
    case True
    note c = True
    show ?thesis
    proof (cases "alloc_scanBlock block areaSize")
      case None
      with c Cons.prems show ?thesis by simp
    next
      case (Some sc)
      obtain areaIndex rangeEnd searchStart largestArea
        where sc: "sc = (areaIndex, rangeEnd, searchStart, largestArea)" by (cases sc) auto
      show ?thesis
      proof (cases "areaIndex \<noteq> kNoIndex")
        case True
        with c Some sc Cons.prems have "blocks' = block # rest" by simp
        then show ?thesis by (simp add: list_all2_refl)
      next
        case False
        with c Some sc Cons.prems obtain f r where r: "alloc_search areaSize rest = Some (f, r)"
          and b: "blocks' = (if searchStart \<noteq> SIZE_MAX
                             then alloc_updateHints block searchStart rangeEnd largestArea
                             else block) # r"
          by (auto simp: Let_def split: option.splits)
        from Cons.IH[OF r] b show ?thesis by simp
      qed
    qed
  qed
qed

lemma alloc_search_found:
  "alloc_search areaSize blocks = Some (Some (k, areaIndex), blocks') \<Longrightarrow>
     k < length blocks \<and> blocks' ! k = blocks ! k"
proof (induction blocks arbitrary: k blocks')
  case Nil
  then show ?case by simp
next
  case (Cons block rest)
  show ?case
  proof (cases "areaSize \<le> areaAvailable block
                 \<and> (isDirty block \<or> areaSize \<le> b_largestUnusedArea block)")
    case False
    with Cons.prems obtain k' r where r: "alloc_search areaSize rest = Some (Some (k', areaIndex), r)"
      and b: "blocks' = block # r" "k = Suc k'"
      by (auto split: option.splits)
    from Cons.IH[OF r] b show ?thesis by simp
  next
    case True
    note c = True
    show ?thesis
    proof (cases "alloc_scanBlock block areaSize")
      case None
      with c Cons.prems show ?thesis by simp
    next
      case (Some sc)
      obtain ai rangeEnd searchStart largestArea
        where sc: "sc = (ai, rangeEnd, searchStart, largestArea)" by (cases sc) auto
      show ?thesis
      proof (cases "ai \<noteq> kNoIndex")
        case True
        with c Some sc Cons.prems have "blocks' = block # rest" "k = 0" by simp_all
        then show ?thesis by simp
      next
        case False
        with c Some sc Cons.prems obtain k' r b0
          where r: "alloc_search areaSize rest = Some (Some (k', areaIndex), r)"
          and b: "blocks' = b0 # r" "k = Suc k'"
          by (auto simp: Let_def split: option.splits)
        from Cons.IH[OF r] b show ?thesis by simp
      qed
    qed
  qed
qed

lemma alloc_search_length:
  "alloc_search areaSize blocks = Some (found, blocks') \<Longrightarrow> length blocks' = length blocks"
  by (drule alloc_search_same) (simp add: list_all2_lengthD)

text \<open>The marking operations and \<open>clearBlock\<close>: what stays and what the flags become.\<close>

lemma markAllocatedArea_fields:
  assumes "markAllocatedArea pool b s e = Some (pool', b')"
  shows "pool' = pool\<lparr>p_totalAreaUsed := size_t (p_totalAreaUsed pool + uint32_sub e s)\<rparr>"
    and "b_pool b' = b_pool b" and "b_rx b' = b_rx b" and "b_rw b' = b_rw b"
    and "b_blockSize b' = b_blockSize b" and "b_areaSize b' = b_areaSize b"
    and "kFlagEmpty \<notin> b_flags b'"
    and "kFlagInitialPadding \<in> b_flags b' \<longleftrightarrow> kFlagInitialPadding \<in> b_flags b"
  using assms
  by (auto simp: markAllocatedArea_def Let_def split: Option.bind_splits if_splits)

lemma markReleasedArea_fields:
  assumes "markReleasedArea pool b s e = Some (pool', b')"
  shows "pool' = pool\<lparr>p_totalAreaUsed := size_t_sub (p_totalAreaUsed pool) (uint32_sub e s)\<rparr>"
    and "b_pool b' = b_pool b" and "b_rx b' = b_rx b" and "b_rw b' = b_rw b"
    and "b_blockSize b' = b_blockSize b" and "b_areaSize b' = b_areaSize b"
    and "kFlagInitialPadding \<in> b_flags b' \<longleftrightarrow> kFlagInitialPadding \<in> b_flags b"
  using assms
  by (auto simp: markReleasedArea_def Let_def split: Option.bind_splits if_splits)

lemma markShrunkArea_fields:
  assumes "markShrunkArea pool b s e = Some (pool', b')"
  shows "pool' = pool\<lparr>p_totalAreaUsed := size_t_sub (p_totalAreaUsed pool) (uint32_sub e s)\<rparr>"
    and "b_pool b' = b_pool b" and "b_rx b' = b_rx b" and "b_rw b' = b_rw b"
    and "b_blockSize b' = b_blockSize b" and "b_areaSize b' = b_areaSize b"
    and "b_flags b' = b_flags b \<union> {kFlagDirty}"
  using assms
  by (auto simp: markShrunkArea_def Let_def split: Option.bind_splits if_splits)

lemma clearBlock_fields:
  assumes "clearBlock b = Some b'"
  shows "b_pool b' = b_pool b" and "b_rx b' = b_rx b" and "b_rw b' = b_rw b"
    and "b_blockSize b' = b_blockSize b" and "b_areaSize b' = b_areaSize b"
    and "b_flags b' = (b_flags b \<union> {kFlagEmpty}) - {kFlagDirty}"
  using assms
  by (auto simp: clearBlock_def Let_def split: Option.bind_splits if_splits)

lemma newBlock_fields:
  assumes "JitAllocatorImpl_newBlock impl pool poolId blockSize vm = Some (Inr b)"
  shows "b_pool b = poolId" and "b_blockSize b = blockSize" and "b_rx b = vm_rx vm"
    and "b_rw b = (if kUseDualMapping \<in> i_options impl then vm_rw vm else vm_rx vm)"
    and "kFlagEmpty \<in> b_flags b"
proof -
  from assms obtain b0 where c: "clearBlock b0 = Some b"
    and b0: "b_pool b0 = poolId" "b_blockSize b0 = blockSize" "b_rx b0 = vm_rx vm"
      "b_rw b0 = (if kUseDualMapping \<in> i_options impl then vm_rw vm else vm_rx vm)"
    by (auto simp: JitAllocatorImpl_newBlock_def Let_def split: if_splits option.splits)
  from clearBlock_fields[OF c] b0
  show "b_pool b = poolId" and "b_blockSize b = blockSize" and "b_rx b = vm_rx vm"
    and "b_rw b = (if kUseDualMapping \<in> i_options impl then vm_rw vm else vm_rx vm)"
    and "kFlagEmpty \<in> b_flags b"
    by simp_all
qed

section \<open>The empty-block counter\<close>

definition countEmpty :: "JitAllocatorBlock list \<Rightarrow> nat" where
  "countEmpty bs = length (filter (\<lambda>b. kFlagEmpty \<in> b_flags b) bs)"

text \<open>
  The invariant behind C9: a pool never has more blocks flagged \<open>kFlagEmpty\<close> than its
  counter says, and the counter is at most 1.
\<close>

definition pool_empty_ok :: "JitAllocatorPool \<Rightarrow> bool" where
  "pool_empty_ok pool =
     (countEmpty (p_blocks pool) \<le> p_emptyBlockCount pool \<and> p_emptyBlockCount pool \<le> 1)"

definition impl_empty_ok :: "JitAllocatorPrivateImpl \<Rightarrow> bool" where
  "impl_empty_ok impl = (i_pools impl \<noteq> [] \<and> (\<forall>pool \<in> set (i_pools impl). pool_empty_ok pool))"

lemma countEmpty_simps [simp]:
  "countEmpty [] = 0"
  "countEmpty (b # bs) = (if kFlagEmpty \<in> b_flags b then 1 else 0) + countEmpty bs"
  "countEmpty (bs @ cs) = countEmpty bs + countEmpty cs"
  by (simp_all add: countEmpty_def)

lemma countEmpty_update:
  "k < length bs \<Longrightarrow>
     countEmpty (bs[k := b']) + (if kFlagEmpty \<in> b_flags (bs ! k) then 1 else 0)
       = countEmpty bs + (if kFlagEmpty \<in> b_flags b' then 1 else 0)"
proof (induction bs arbitrary: k)
  case Nil
  then show ?case by simp
next
  case (Cons b bs)
  show ?case
  proof (cases k)
    case 0
    then show ?thesis by simp
  next
    case (Suc j)
    with Cons.prems have "j < length bs" by simp
    from Cons.IH[OF this] Suc show ?thesis by simp
  qed
qed

lemma countEmpty_remove:
  "k < length bs \<Longrightarrow>
     countEmpty (take k bs @ drop (Suc k) bs) + (if kFlagEmpty \<in> b_flags (bs ! k) then 1 else 0)
       = countEmpty bs"
proof -
  assume k: "k < length bs"
  then have "bs = take k bs @ (bs ! k) # drop (Suc k) bs" by (simp add: id_take_nth_drop)
  then have "countEmpty bs = countEmpty (take k bs @ (bs ! k) # drop (Suc k) bs)" by simp
  then show ?thesis by simp
qed

lemma countEmpty_same:
  "list_all2 same_but_hints bs bs' \<Longrightarrow> countEmpty bs' = countEmpty bs"
proof (induction rule: list_all2_induct)
  case Nil
  then show ?case by simp
next
  case (Cons b bs b' bs')
  from same_but_hints_flag[OF Cons.hyps(1), of kFlagEmpty] Cons.IH show ?case by simp
qed

lemma set_update_cases: "x \<in> set (xs[i := y]) \<Longrightarrow> x = y \<or> x \<in> set xs"
  by (metis insertE set_update_subset_insert subsetD)

lemma impl_empty_ok_update:
  assumes "impl_empty_ok impl" and "pool_empty_ok pool'" and "i_pools impl' = (i_pools impl)[poolId := pool']"
  shows "impl_empty_ok impl'"
  using assms by (auto simp: impl_empty_ok_def dest: set_update_cases)

text \<open>The shape of the results of the pieces of \<open>alloc\<close>.\<close>

lemma alloc_finish_shape:
  assumes "alloc_finish impl poolId pool k areaIndex areaSize size' = Some (err, outs, a')"
  obtains pool' block' where
    "markAllocatedArea pool (p_blocks pool ! k) areaIndex (uint32_t (areaIndex + areaSize)) = Some (pool', block')"
    "err = kErrorOk"
    "outs = (b_rx block' + byteSizeFromAreaSize pool' areaIndex, b_rw block' + byteSizeFromAreaSize pool' areaIndex)"
    "byteSizeFromAreaSize pool' areaIndex \<le> size_t_sub (b_blockSize block') size'"
    "a' = Some (impl\<lparr>i_allocationCount := size_t (i_allocationCount impl + 1),
                      i_pools := (i_pools impl)[poolId := pool'\<lparr>p_blocks := (p_blocks pool')[k := block']\<rparr>]\<rparr>)"
  using assms
  by (auto simp: alloc_finish_def Let_def split: option.splits if_splits)

lemma alloc_newBlock_shape:
  assumes "alloc_newBlock impl vm poolId pool areaSize size' = Some res"
  obtains
    (overflow) "JitAllocatorImpl_calculateIdealBlockSize impl pool size' = 0"
      "res = (kErrorOutOfMemory, (0, 0), Some (impl\<lparr>i_pools := (i_pools impl)[poolId := pool]\<rparr>))"
  | (vmError) err where
      "JitAllocatorImpl_calculateIdealBlockSize impl pool size' \<noteq> 0"
      "JitAllocatorImpl_newBlock impl pool poolId
         (JitAllocatorImpl_calculateIdealBlockSize impl pool size') vm = Some (Inl err)"
      "res = (err, (0, 0), Some (impl\<lparr>i_pools := (i_pools impl)[poolId := pool]\<rparr>))"
  | (created) block0 where
      "JitAllocatorImpl_calculateIdealBlockSize impl pool size' \<noteq> 0"
      "JitAllocatorImpl_newBlock impl pool poolId
         (JitAllocatorImpl_calculateIdealBlockSize impl pool size') vm = Some (Inr block0)"
      "alloc_finish impl poolId
         ((JitAllocatorImpl_insertBlock pool block0)
            \<lparr>p_blocks := p_blocks pool @
               [block0\<lparr>b_searchStart := uint32_t (b_searchStart block0 + areaSize),
                       b_largestUnusedArea := uint32_sub (b_largestUnusedArea block0) areaSize\<rparr>]\<rparr>)
         (length (p_blocks pool)) (initialAreaStart block0) areaSize size' = Some res"
proof (cases "JitAllocatorImpl_calculateIdealBlockSize impl pool size' = 0")
  case True
  with assms show ?thesis by (intro overflow) (simp_all add: alloc_newBlock_def Let_def)
next
  case False
  note bz = False
  show ?thesis
  proof (cases "JitAllocatorImpl_newBlock impl pool poolId
                  (JitAllocatorImpl_calculateIdealBlockSize impl pool size') vm")
    case None
    with assms bz show ?thesis by (simp add: alloc_newBlock_def Let_def)
  next
    case (Some nb)
    show ?thesis
    proof (cases nb)
      case (Inl e)
      with Some assms bz show ?thesis by (intro vmError[of e]) (simp_all add: alloc_newBlock_def Let_def)
    next
      case (Inr block0)
      have "(p_blocks (JitAllocatorImpl_insertBlock pool block0))[length (p_blocks pool) := x]
               = p_blocks pool @ [x]" for x
        by (simp add: JitAllocatorImpl_insertBlock_def)
      with Inr Some assms bz show ?thesis
        by (intro created[of block0]) (simp_all add: alloc_newBlock_def Let_def)
    qed
  qed
qed

lemma sizeToPoolId_loop_le: "sizeToPoolId_loop s poolId g \<le> poolId"
proof (induction s poolId g rule: sizeToPoolId_loop.induct)
  case (1 s poolId g)
  show ?case
  proof (cases "poolId = 0 \<or> alignUp s g = s")
    case True
    then show ?thesis by (auto simp: sizeToPoolId_loop.simps[of s poolId g])
  next
    case False
    with "1.IH" have "sizeToPoolId_loop s (poolId - 1) (g div 2) \<le> poolId - 1" by simp
    with False show ?thesis by (simp add: sizeToPoolId_loop.simps[of s poolId g])
  qed
qed

lemma sizeToPoolId_valid:
  "i_pools impl \<noteq> [] \<Longrightarrow> JitAllocatorImpl_sizeToPoolId impl s < length (i_pools impl)"
proof -
  assume "i_pools impl \<noteq> []"
  then have "0 < length (i_pools impl)" by simp
  moreover have "JitAllocatorImpl_sizeToPoolId impl s \<le> length (i_pools impl) - 1"
    by (simp add: JitAllocatorImpl_sizeToPoolId_def Let_def sizeToPoolId_loop_le)
  moreover have "length (i_pools impl) - 1 < length (i_pools impl)"
    using \<open>i_pools impl \<noteq> []\<close> by (cases "i_pools impl") simp_all
  ultimately show ?thesis by linarith
qed

lemma alloc_finish_empty_ok:
  assumes r: "alloc_finish impl poolId pool k areaIndex areaSize size' = Some (err, outs, Some impl')"
    and ok: "impl_empty_ok impl" and k: "k < length (p_blocks pool)"
    and p: "countEmpty (p_blocks pool) \<le> p_emptyBlockCount pool + (if kFlagEmpty \<in> b_flags (p_blocks pool ! k) then 1 else 0)"
           "p_emptyBlockCount pool \<le> 1"
  shows "impl_empty_ok impl'"
  using r
proof (rule alloc_finish_shape)
  fix pool' block'
  assume m: "markAllocatedArea pool (p_blocks pool ! k) areaIndex (uint32_t (areaIndex + areaSize)) = Some (pool', block')"
    and a: "Some impl' = Some (impl\<lparr>i_allocationCount := size_t (i_allocationCount impl + 1),
                      i_pools := (i_pools impl)[poolId := pool'\<lparr>p_blocks := (p_blocks pool')[k := block']\<rparr>]\<rparr>)"
  define pool'' where "pool'' = pool'\<lparr>p_blocks := (p_blocks pool')[k := block']\<rparr>"
  note f = markAllocatedArea_fields[OF m]
  have ne: "kFlagEmpty \<notin> b_flags block'" by (rule f(7))
  have pb: "p_blocks pool' = p_blocks pool" "p_emptyBlockCount pool' = p_emptyBlockCount pool"
    by (simp_all add: f(1))
  have "countEmpty ((p_blocks pool)[k := block']) + (if kFlagEmpty \<in> b_flags (p_blocks pool ! k) then 1 else 0)
          = countEmpty (p_blocks pool)"
    using countEmpty_update[OF k, of block'] ne by simp
  with p have "countEmpty ((p_blocks pool)[k := block']) \<le> p_emptyBlockCount pool" by simp
  with p pb have "pool_empty_ok pool''" by (simp add: pool_empty_ok_def pool''_def)
  moreover from a have "i_pools impl' = (i_pools impl)[poolId := pool'']" by (simp add: pool''_def)
  ultimately show ?thesis using ok impl_empty_ok_update by blast
qed

lemma alloc_found_empty_ok:
  assumes r: "alloc_found impl poolId pool k areaIndex areaSize size' = Some (err, outs, Some impl')"
    and ok: "impl_empty_ok impl" and k: "k < length (p_blocks pool)" and pk: "pool_empty_ok pool"
  shows "impl_empty_ok impl'"
proof -
  define b where "b = p_blocks pool ! k"
  define c where "c = b\<lparr>b_flags := b_flags b - {kFlagEmpty}\<rparr>"
  have u: "countEmpty ((p_blocks pool)[k := c]) + (if kFlagEmpty \<in> b_flags b then 1 else 0)
             = countEmpty (p_blocks pool)"
    using countEmpty_update[OF k, of c] by (simp add: c_def b_def)
  show ?thesis
  proof (cases "hasFlag b kFlagEmpty")
    case True
    then have e: "kFlagEmpty \<in> b_flags b" by (simp add: hasFlag_def)
    with u pk have c1: "p_emptyBlockCount pool = 1" "countEmpty ((p_blocks pool)[k := c]) = 0"
      by (auto simp: pool_empty_ok_def)
    define pool2 where "pool2 = pool\<lparr>p_emptyBlockCount := uint8_sub (p_emptyBlockCount pool) 1,
                       p_blocks := (p_blocks pool)[k := c]\<rparr>"
    from r True have r2: "alloc_finish impl poolId pool2 k areaIndex areaSize size' = Some (err, outs, Some impl')"
      by (simp add: alloc_found_def Let_def pool2_def c_def b_def)
    have k2: "k < length (p_blocks pool2)" using k by (simp add: pool2_def)
    have "countEmpty (p_blocks pool2) = 0" "p_emptyBlockCount pool2 = 0"
      using c1 by (simp_all add: pool2_def uint8_sub_def)
    then show ?thesis
      by (intro alloc_finish_empty_ok[OF r2 ok k2]) simp_all
  next
    case False
    with r have r2: "alloc_finish impl poolId pool k areaIndex areaSize size' = Some (err, outs, Some impl')"
      by (simp add: alloc_found_def Let_def b_def)
    from pk show ?thesis
      by (intro alloc_finish_empty_ok[OF r2 ok k]) (simp_all add: pool_empty_ok_def)
  qed
qed

lemma alloc_newBlock_empty_ok:
  assumes r: "alloc_newBlock impl vm poolId pool areaSize size' = Some (err, outs, Some impl')"
    and ok: "impl_empty_ok impl" and pk: "pool_empty_ok pool"
  shows "impl_empty_ok impl'"
  using r
proof (cases rule: alloc_newBlock_shape)
  case overflow
  then have "i_pools impl' = (i_pools impl)[poolId := pool]" by simp
  with ok pk show ?thesis by (rule impl_empty_ok_update)
next
  case (vmError e)
  then have "i_pools impl' = (i_pools impl)[poolId := pool]" by simp
  with ok pk show ?thesis by (rule impl_empty_ok_update)
next
  case (created block0)
  define block1 where "block1 = block0\<lparr>b_searchStart := uint32_t (b_searchStart block0 + areaSize),
                          b_largestUnusedArea := uint32_sub (b_largestUnusedArea block0) areaSize\<rparr>"
  define pool3 where "pool3 = (JitAllocatorImpl_insertBlock pool block0)\<lparr>p_blocks := p_blocks pool @ [block1]\<rparr>"
  from created(3) have r2: "alloc_finish impl poolId pool3 (length (p_blocks pool))
                              (initialAreaStart block0) areaSize size' = Some (err, outs, Some impl')"
    by (simp add: pool3_def block1_def)
  have pb: "p_blocks pool3 = p_blocks pool @ [block1]"
    "p_emptyBlockCount pool3 = p_emptyBlockCount pool"
    by (simp_all add: JitAllocatorImpl_insertBlock_def pool3_def)
  have k3: "length (p_blocks pool) < length (p_blocks pool3)" by (simp add: pb)
  have "countEmpty (p_blocks pool3) \<le> p_emptyBlockCount pool3
           + (if kFlagEmpty \<in> b_flags (p_blocks pool3 ! length (p_blocks pool)) then 1 else 0)"
    using pk by (simp add: pb pool_empty_ok_def)
  moreover have "p_emptyBlockCount pool3 \<le> 1" using pk by (simp add: pb pool_empty_ok_def)
  ultimately show ?thesis
    by (rule alloc_finish_empty_ok[OF r2 ok k3])
qed

lemma alloc_locked_empty_ok:
  assumes r: "alloc_locked impl vm size' = Some (err, outs, Some impl')" and ok: "impl_empty_ok impl"
  shows "impl_empty_ok impl'"
proof -
  let ?poolId = "JitAllocatorImpl_sizeToPoolId impl size'"
  let ?pool = "i_pools impl ! ?poolId"
  let ?areaSize = "areaSizeFromByteSize ?pool size'"
  from ok have "?poolId < length (i_pools impl)" by (simp add: impl_empty_ok_def sizeToPoolId_valid)
  then have "?pool \<in> set (i_pools impl)" by simp
  with ok have pk: "pool_empty_ok ?pool" by (simp add: impl_empty_ok_def)
  from r obtain found blocks1 where s: "alloc_search ?areaSize (p_blocks ?pool) = Some (found, blocks1)"
    by (auto simp: alloc_locked_def Let_def split: option.splits)
  from countEmpty_same[OF alloc_search_same[OF s]] pk
  have pk1: "pool_empty_ok (?pool\<lparr>p_blocks := blocks1\<rparr>)" by (simp add: pool_empty_ok_def)
  show ?thesis
  proof (cases found)
    case None
    with r s have "alloc_newBlock impl vm ?poolId (?pool\<lparr>p_blocks := blocks1\<rparr>) ?areaSize size'
                     = Some (err, outs, Some impl')"
      by (simp add: alloc_locked_def Let_def)
    from alloc_newBlock_empty_ok[OF this ok pk1] show ?thesis .
  next
    case (Some ka)
    obtain k areaIndex where ka: "ka = (k, areaIndex)" by (cases ka)
    with Some r s have f: "alloc_found impl ?poolId (?pool\<lparr>p_blocks := blocks1\<rparr>) k areaIndex ?areaSize size'
                     = Some (err, outs, Some impl')"
      by (simp add: alloc_locked_def Let_def)
    from s Some ka alloc_search_found[of ?areaSize "p_blocks ?pool" k areaIndex blocks1]
         alloc_search_length[OF s]
    have "k < length (p_blocks (?pool\<lparr>p_blocks := blocks1\<rparr>))" by simp
    from alloc_found_empty_ok[OF f ok this pk1] show ?thesis .
  qed
qed

lemma alloc_empty_ok:
  assumes "alloc (Some impl) vm outs n = Some (err, outs', Some impl')" and "impl_empty_ok impl"
  shows "impl_empty_ok impl'"
  using assms
  by (auto simp: alloc_def Let_def split: if_splits dest: alloc_locked_empty_ok)

text \<open>The shape of the results of \<open>release\<close> and \<open>shrink\<close>.\<close>

lemma release_shape:
  assumes "release (Some impl) rxPtr = Some (err, a')"
  obtains
    (null) "rxPtr = 0" "err = kErrorInvalidArgument" "a' = Some impl"
  | (unknown) "rxPtr \<noteq> 0" "tree_get impl rxPtr = None" "err = kErrorInvalidState" "a' = Some impl"
  | (released) poolId k areaEnd pool1 block1 where
      "rxPtr \<noteq> 0" "tree_get impl rxPtr = Some (poolId, k)"
      "areaEndOf (p_blocks (i_pools impl ! poolId) ! k)
         (areaIndexOf (i_pools impl ! poolId) (p_blocks (i_pools impl ! poolId) ! k) rxPtr) = Some areaEnd"
      "markReleasedArea (i_pools impl ! poolId) (p_blocks (i_pools impl ! poolId) ! k)
         (areaIndexOf (i_pools impl ! poolId) (p_blocks (i_pools impl ! poolId) ! k) rxPtr) areaEnd
         = Some (pool1, block1)"
      "err = kErrorOk"
      "a' = Some (impl\<lparr>i_allocationCount := size_t_sub (i_allocationCount impl) 1,
                       i_pools := (i_pools impl)[poolId :=
                         (if empty_block block1 then
                            if p_emptyBlockCount pool1 \<noteq> 0 \<or> kImmediateRelease \<in> i_options impl
                            then JitAllocatorImpl_removeBlock (pool1\<lparr>p_blocks := (p_blocks pool1)[k := block1]\<rparr>) k
                            else pool1\<lparr>p_blocks := (p_blocks pool1)[k := block1],
                                       p_emptyBlockCount := uint8_t (p_emptyBlockCount pool1 + 1)\<rparr>
                          else pool1\<lparr>p_blocks := (p_blocks pool1)[k := block1]\<rparr>)]\<rparr>)"
proof (cases "rxPtr = 0")
  case True
  with assms show ?thesis by (intro null) (simp_all add: release_def)
next
  case False
  note nz = False
  show ?thesis
  proof (cases "tree_get impl rxPtr")
    case None
    with assms nz show ?thesis by (intro unknown) (simp_all add: release_def)
  next
    case (Some pos)
    obtain poolId k where pos: "pos = (poolId, k)" by (cases pos)
    define pool where "pool = i_pools impl ! poolId"
    define block where "block = p_blocks pool ! k"
    define areaIndex where "areaIndex = areaIndexOf pool block rxPtr"
    from assms nz Some pos obtain areaEnd where e: "areaEndOf block areaIndex = Some areaEnd"
      by (cases "areaEndOf block areaIndex")
         (simp_all add: release_def Let_def pool_def block_def areaIndex_def)
    from assms nz Some pos e obtain pool1 block1
      where m: "markReleasedArea pool block areaIndex areaEnd = Some (pool1, block1)"
      by (cases "markReleasedArea pool block areaIndex areaEnd")
         (auto simp: release_def Let_def pool_def block_def areaIndex_def)
    from assms nz Some pos e m show ?thesis
      unfolding pool_def block_def areaIndex_def
      by (intro released[of poolId k areaEnd pool1 block1])
         (auto simp: release_def Let_def)
  qed
qed

lemma shrink_shape:
  assumes "shrink (Some impl) rxPtr newSize = Some (err, a')" and "newSize \<noteq> 0"
  obtains
    (failed) "err \<noteq> kErrorOk" "a' = Some impl"
  | (same) "err = kErrorOk" "a' = Some impl"
  | (shrunk) poolId k s e pool1 block1 where
      "tree_get impl rxPtr = Some (poolId, k)"
      "markShrunkArea (i_pools impl ! poolId) (p_blocks (i_pools impl ! poolId) ! k) s e
         = Some (pool1, block1)"
      "err = kErrorOk"
      "a' = Some (impl\<lparr>i_pools := (i_pools impl)
                [poolId := pool1\<lparr>p_blocks := (p_blocks pool1)[k := block1]\<rparr>]\<rparr>)"
proof (cases "rxPtr = 0")
  case True
  with assms show ?thesis by (intro failed) (simp_all add: shrink_def)
next
  case False
  note nz = False
  show ?thesis
  proof (cases "tree_get impl rxPtr")
    case None
    with assms nz show ?thesis by (intro failed) (simp_all add: shrink_def)
  next
    case (Some pos)
    obtain poolId k where pos: "pos = (poolId, k)" by (cases pos)
    define pool where "pool = i_pools impl ! poolId"
    define block where "block = p_blocks pool ! k"
    define areaStart where "areaStart = areaIndexOf pool block rxPtr"
    from assms nz Some pos obtain isUsed where u: "bitVectorGetBit (b_usedBitVector block) areaStart = Some isUsed"
      by (cases "bitVectorGetBit (b_usedBitVector block) areaStart")
         (simp_all add: shrink_def Let_def pool_def block_def areaStart_def)
    show ?thesis
    proof (cases isUsed)
      case False
      with assms nz Some pos u show ?thesis
        by (intro failed) (simp_all add: shrink_def Let_def pool_def block_def areaStart_def)
    next
      case True
      note used = True
      from assms nz Some pos u used obtain areaEnd where e: "areaEndOf block areaStart = Some areaEnd"
        by (cases "areaEndOf block areaStart")
           (simp_all add: shrink_def Let_def pool_def block_def areaStart_def)
      define prev where "prev = uint32_sub areaEnd areaStart"
      define shrunkSize where "shrunkSize = areaSizeFromByteSize pool newSize"
      show ?thesis
      proof (cases "prev < shrunkSize")
        case True
        with assms nz Some pos u used e show ?thesis
          by (intro failed)
             (simp_all add: shrink_def Let_def pool_def block_def areaStart_def prev_def shrunkSize_def)
      next
        case False
        note fits = False
        show ?thesis
        proof (cases "uint32_sub prev shrunkSize = 0")
          case True
          with assms nz Some pos u used e fits show ?thesis
            by (intro same)
               (simp_all add: shrink_def Let_def pool_def block_def areaStart_def prev_def shrunkSize_def)
        next
          case False
          with assms nz Some pos u used e fits obtain pool1 block1
            where m: "markShrunkArea pool block (uint32_t (areaStart + shrunkSize)) areaEnd = Some (pool1, block1)"
            by (cases "markShrunkArea pool block (uint32_t (areaStart + shrunkSize)) areaEnd")
               (auto simp: shrink_def Let_def pool_def block_def areaStart_def prev_def shrunkSize_def)
          from assms nz Some pos u used e fits False m show ?thesis
            unfolding pool_def block_def
            by (intro shrunk[of poolId k "uint32_t (areaStart + shrunkSize)" areaEnd pool1 block1])
               (simp_all add: shrink_def Let_def pool_def block_def areaStart_def prev_def shrunkSize_def)
        qed
      qed
    qed
  qed
qed

lemma tree_get_valid:
  "tree_get impl p = Some (poolId, k) \<Longrightarrow>
     poolId < length (i_pools impl) \<and> k < length (p_blocks (i_pools impl ! poolId))"
proof -
  assume "tree_get impl p = Some (poolId, k)"
  then have "(poolId, k) \<in> set (tree_blocks impl)"
    by (auto simp: tree_get_def find_Some_iff)
  then show ?thesis by (simp add: tree_blocks_valid)
qed

lemma release_empty_ok:
  assumes r: "release (Some impl) rxPtr = Some (err, Some impl')" and ok: "impl_empty_ok impl"
  shows "impl_empty_ok impl'"
  using r
proof (cases rule: release_shape)
  case null
  with ok show ?thesis by simp
next
  case unknown
  with ok show ?thesis by simp
next
  case (released poolId k areaEnd pool1 block1)
  define pool where "pool = i_pools impl ! poolId"
  define blocks2 where "blocks2 = (p_blocks pool)[k := block1]"
  from tree_get_valid[OF released(2)]
  have v: "poolId < length (i_pools impl)" "k < length (p_blocks pool)" by (simp_all add: pool_def)
  then have "pool \<in> set (i_pools impl)" by (simp add: pool_def)
  with ok have pk: "countEmpty (p_blocks pool) \<le> p_emptyBlockCount pool" "p_emptyBlockCount pool \<le> 1"
    by (simp_all add: impl_empty_ok_def pool_empty_ok_def)
  note f = markReleasedArea_fields(1)[OF released(4), folded pool_def]
  have p1: "p_blocks pool1 = p_blocks pool" "p_emptyBlockCount pool1 = p_emptyBlockCount pool"
    by (simp_all add: f)
  have u: "countEmpty blocks2 + (if kFlagEmpty \<in> b_flags (p_blocks pool ! k) then 1 else 0)
             = countEmpty (p_blocks pool) + (if kFlagEmpty \<in> b_flags block1 then 1 else 0)"
    unfolding blocks2_def by (rule countEmpty_update[OF v(2)])
  define pool3 where "pool3 =
     (if empty_block block1 then
        if p_emptyBlockCount pool1 \<noteq> 0 \<or> kImmediateRelease \<in> i_options impl
        then JitAllocatorImpl_removeBlock (pool1\<lparr>p_blocks := (p_blocks pool1)[k := block1]\<rparr>) k
        else pool1\<lparr>p_blocks := (p_blocks pool1)[k := block1],
                   p_emptyBlockCount := uint8_t (p_emptyBlockCount pool1 + 1)\<rparr>
      else pool1\<lparr>p_blocks := (p_blocks pool1)[k := block1]\<rparr>)"
  have "pool_empty_ok pool3"
  proof (cases "empty_block block1")
    case False
    then have "kFlagEmpty \<notin> b_flags block1" by (simp add: empty_block_def hasFlag_def)
    with u pk have "countEmpty blocks2 \<le> p_emptyBlockCount pool" by simp
    with False pk show ?thesis by (simp add: pool3_def pool_empty_ok_def p1 blocks2_def)
  next
    case True
    then have e: "kFlagEmpty \<in> b_flags block1" by (simp add: empty_block_def hasFlag_def)
    have k2: "k < length blocks2" "blocks2 ! k = block1" using v(2) by (simp_all add: blocks2_def)
    show ?thesis
    proof (cases "p_emptyBlockCount pool1 \<noteq> 0 \<or> kImmediateRelease \<in> i_options impl")
      case True
      have "countEmpty (take k blocks2 @ drop (Suc k) blocks2) + 1 = countEmpty blocks2"
        using countEmpty_remove[OF k2(1)] e k2(2) by simp
      with u pk e have "countEmpty (take k blocks2 @ drop (Suc k) blocks2) \<le> p_emptyBlockCount pool"
        by simp
      with True \<open>empty_block block1\<close> pk show ?thesis
        by (simp add: pool3_def pool_empty_ok_def p1 blocks2_def JitAllocatorImpl_removeBlock_def Let_def)
    next
      case False
      then have z: "p_emptyBlockCount pool = 0" by (simp add: p1)
      with u pk e have "countEmpty blocks2 \<le> 1" by simp
      with False \<open>empty_block block1\<close> z show ?thesis
        by (simp add: pool3_def pool_empty_ok_def p1 blocks2_def uint8_t_def)
    qed
  qed
  moreover from released(6) have "i_pools impl' = (i_pools impl)[poolId := pool3]"
    by (simp add: pool3_def)
  ultimately show ?thesis using ok impl_empty_ok_update by blast
qed

lemma shrink_empty_ok:
  assumes r: "shrink (Some impl) rxPtr newSize = Some (err, Some impl')" and ok: "impl_empty_ok impl"
  shows "impl_empty_ok impl'"
proof (cases "newSize = 0")
  case True
  show ?thesis
  proof (cases "rxPtr = 0")
    case True
    with r ok show ?thesis by (simp add: shrink_def)
  next
    case False
    with r \<open>newSize = 0\<close> have "release (Some impl) rxPtr = Some (err, Some impl')"
      by (simp add: shrink_def)
    from release_empty_ok[OF this ok] show ?thesis .
  qed
next
  case False
  from r False show ?thesis
  proof (cases rule: shrink_shape)
    case failed
    with ok show ?thesis by simp
  next
    case same
    with ok show ?thesis by simp
  next
    case (shrunk poolId k s e pool1 block1)
    define pool where "pool = i_pools impl ! poolId"
    from tree_get_valid[OF shrunk(1)]
    have v: "poolId < length (i_pools impl)" "k < length (p_blocks pool)" by (simp_all add: pool_def)
    then have "pool \<in> set (i_pools impl)" by (simp add: pool_def)
    with ok have pk: "countEmpty (p_blocks pool) \<le> p_emptyBlockCount pool" "p_emptyBlockCount pool \<le> 1"
      by (simp_all add: impl_empty_ok_def pool_empty_ok_def)
    note f = markShrunkArea_fields[OF shrunk(2), folded pool_def]
    have p1: "p_blocks pool1 = p_blocks pool" "p_emptyBlockCount pool1 = p_emptyBlockCount pool"
      by (simp_all add: f(1))
    have "kFlagEmpty \<in> b_flags block1 \<longleftrightarrow> kFlagEmpty \<in> b_flags (p_blocks pool ! k)"
      by (simp add: f(7))
    with countEmpty_update[OF v(2), of block1]
    have "countEmpty ((p_blocks pool)[k := block1]) = countEmpty (p_blocks pool)" by simp
    with pk have "pool_empty_ok (pool1\<lparr>p_blocks := (p_blocks pool1)[k := block1]\<rparr>)"
      by (simp add: pool_empty_ok_def p1)
    moreover from shrunk(4)
    have "i_pools impl' = (i_pools impl)[poolId := pool1\<lparr>p_blocks := (p_blocks pool1)[k := block1]\<rparr>]"
      by simp
    ultimately show ?thesis using ok impl_empty_ok_update by blast
  qed
qed

lemma reset_pool_empty_ok:
  assumes "reset_pool impl policy pool = Some pool'" and "pool_empty_ok pool"
  shows "pool_empty_ok pool'"
proof (cases "policy \<noteq> kHard \<and> kImmediateRelease \<notin> i_options impl")
  case False
  with assms show ?thesis by (auto simp: reset_pool_def pool_reset_def pool_empty_ok_def)
next
  case True
  with assms obtain b where "pool' = (JitAllocatorImpl_insertBlock (pool_reset pool) b)\<lparr>p_emptyBlockCount := 1\<rparr>"
    by (auto simp: reset_pool_def split: list.splits option.splits)
  then show ?thesis
    by (simp add: pool_empty_ok_def JitAllocatorImpl_insertBlock_def pool_reset_def)
qed

lemma reset_pools_empty_ok:
  "reset_pools impl policy pools = Some pools' \<Longrightarrow> \<forall>pool \<in> set pools. pool_empty_ok pool \<Longrightarrow>
     length pools' = length pools \<and> (\<forall>pool \<in> set pools'. pool_empty_ok pool)"
proof (induction pools arbitrary: pools')
  case Nil
  then show ?case by simp
next
  case (Cons pool pools)
  from Cons.prems(1) obtain p' ps' where p: "reset_pool impl policy pool = Some p'"
    and ps: "reset_pools impl policy pools = Some ps'" and e: "pools' = p' # ps'"
    by (auto split: option.splits)
  from reset_pool_empty_ok[OF p] Cons.prems(2) have "pool_empty_ok p'" by simp
  moreover from Cons.IH[OF ps] Cons.prems(2)
  have "length ps' = length pools \<and> (\<forall>pool \<in> set ps'. pool_empty_ok pool)" by simp
  ultimately show ?case using e by simp
qed

lemma reset_empty_ok:
  assumes "reset (Some impl) policy = Some (Some impl')" and "impl_empty_ok impl"
  shows "impl_empty_ok impl'"
proof -
  from assms(1) obtain pools where r: "reset_pools impl policy (i_pools impl) = Some pools"
    and i: "impl' = impl\<lparr>i_pools := pools\<rparr>"
    by (auto simp: reset_def split: option.splits)
  from reset_pools_empty_ok[OF r] assms(2)
  have "length pools = length (i_pools impl)" "\<forall>pool \<in> set pools. pool_empty_ok pool"
    by (simp_all add: impl_empty_ok_def)
  with assms(2) i show ?thesis by (auto simp: impl_empty_ok_def)
qed

lemma new_pools:
  assumes "JitAllocatorImpl_new plat params = Some impl"
  shows "\<exists>g n. 0 < n \<and> i_pools impl = map (\<lambda>poolId. JitAllocatorPool_new (uint32_t (g * 2 ^ poolId))) [0..<n]"
proof (cases "malloc_impl_ok plat")
  case False
  with assms show ?thesis by (simp add: JitAllocatorImpl_new_def Let_def)
next
  case True
  define P where "P = (case params of None \<Rightarrow> JitAllocatorParams_none | Some p \<Rightarrow> p)"
  define n where "n = (if kUseMultiplePools \<in> cp_options P then kJitAllocatorMultiPoolCount else 1)"
  define g where "g = (if cp_granularity P < 64 \<or> 256 < cp_granularity P \<or> \<not> isPowerOf2 (cp_granularity P)
                       then kJitAllocatorBaseGranularity else cp_granularity P)"
  from assms True
  have "i_pools impl = map (\<lambda>poolId. JitAllocatorPool_new (uint32_t (g * 2 ^ poolId))) [0..<n]"
    unfolding JitAllocatorImpl_new_def Let_def P_def[symmetric] n_def[symmetric] g_def[symmetric]
    by (auto split del: if_split)
  moreover have "0 < n" by (simp add: n_def kJitAllocatorMultiPoolCount_def)
  ultimately show ?thesis by blast
qed

lemma new_empty_ok:
  assumes "JitAllocatorImpl_new plat params = Some impl"
  shows "impl_empty_ok impl"
proof -
  from new_pools[OF assms] obtain g n where n: "0 < n"
    and p: "i_pools impl = map (\<lambda>poolId. JitAllocatorPool_new (uint32_t (g * 2 ^ poolId))) [0..<n]"
    by blast
  from n p have "i_pools impl \<noteq> []" by simp
  moreover have "pool_empty_ok (JitAllocatorPool_new x)" for x
    by (simp add: pool_empty_ok_def JitAllocatorPool_new_def)
  ultimately show ?thesis using p by (auto simp: impl_empty_ok_def)
qed

definition allocator_empty_ok :: "JitAllocator \<Rightarrow> bool" where
  "allocator_empty_ok a = (case a of None \<Rightarrow> True | Some impl \<Rightarrow> impl_empty_ok impl)"

lemma alloc_keeps_initialized:
  "alloc a vm outs n = Some (err, outs', a') \<Longrightarrow> (a = None \<longleftrightarrow> a' = None)"
proof (cases a)
  case None
  assume "alloc a vm outs n = Some (err, outs', a')"
  with None show ?thesis by (simp add: alloc_def)
next
  case (Some impl)
  assume r: "alloc a vm outs n = Some (err, outs', a')"
  have "a' \<noteq> None"
  proof (cases "alignUp n (i_granularity impl) = 0 \<or> UINT32_MAX div 2 < alignUp n (i_granularity impl)")
    case True
    with r Some show ?thesis by (auto simp: alloc_def Let_def)
  next
    case False
    with r Some have l: "alloc_locked impl vm (alignUp n (i_granularity impl)) = Some (err, outs', a')"
      by (simp add: alloc_def Let_def)
    then show ?thesis
      by (auto simp: alloc_locked_def alloc_found_def Let_def split: option.splits
               elim!: alloc_newBlock_shape alloc_finish_shape)
  qed
  with Some show ?thesis by simp
qed

lemma step_empty_ok:
  assumes "step a op = Some a'" and "allocator_empty_ok a"
  shows "allocator_empty_ok a'"
proof (cases a)
  case None
  with assms(1) have "a' = None"
    by (cases op) (auto simp: alloc_def release_def shrink_def query_def reset_def)
  then show ?thesis by (simp add: allocator_empty_ok_def)
next
  case (Some impl)
  with assms(2) have ok: "impl_empty_ok impl" by (simp add: allocator_empty_ok_def)
  show ?thesis
  proof (cases op)
    case (OpAlloc vm n)
    with assms(1) Some obtain err outs where r: "alloc (Some impl) vm (0, 0) n = Some (err, outs, a')"
      by auto
    from alloc_keeps_initialized[OF r] obtain impl' where a': "a' = Some impl'" by auto
    from alloc_empty_ok[OF r[unfolded a'] ok] a' show ?thesis by (simp add: allocator_empty_ok_def)
  next
    case (OpRelease p)
    with assms(1) Some obtain err where r: "release (Some impl) p = Some (err, a')" by auto
    then obtain impl' where a': "a' = Some impl'" by (cases rule: release_shape) auto
    from release_empty_ok[OF r[unfolded a'] ok] a' show ?thesis by (simp add: allocator_empty_ok_def)
  next
    case (OpShrink p n)
    with assms(1) Some obtain err where r: "shrink (Some impl) p n = Some (err, a')" by auto
    have "\<exists>impl'. a' = Some impl'"
    proof (cases "n = 0")
      case True
      show ?thesis
      proof (cases "p = 0")
        case True
        with r show ?thesis by (auto simp: shrink_def)
      next
        case False
        with r \<open>n = 0\<close> have "release (Some impl) p = Some (err, a')" by (simp add: shrink_def)
        then show ?thesis by (cases rule: release_shape) auto
      qed
    next
      case False
      with r show ?thesis by (cases rule: shrink_shape) auto
    qed
    then obtain impl' where a': "a' = Some impl'" by auto
    from shrink_empty_ok[OF r[unfolded a'] ok] a' show ?thesis by (simp add: allocator_empty_ok_def)
  next
    case (OpQuery p)
    with assms Some show ?thesis by auto
  next
    case (OpReset policy)
    with assms(1) Some have r: "reset (Some impl) policy = Some a'" by simp
    then obtain impl' where a': "a' = Some impl'" by (auto simp: reset_def split: option.splits)
    from reset_empty_ok[OF r[unfolded a'] ok] a' show ?thesis by (simp add: allocator_empty_ok_def)
  qed
qed

lemma run_empty_ok:
  "run a ops = Some a' \<Longrightarrow> allocator_empty_ok a \<Longrightarrow> allocator_empty_ok a'"
proof (induction ops arbitrary: a)
  case Nil
  then show ?case by simp
next
  case (Cons op ops)
  from Cons.prems(1) obtain a1 where s: "step a op = Some a1" and r: "run a1 ops = Some a'"
    by (auto split: option.splits)
  from step_empty_ok[OF s Cons.prems(2)] have "allocator_empty_ok a1" .
  from Cons.IH[OF r this] show ?case .
qed

text \<open>
  C9. In every state that a sequence of \<open>alloc\<close>, \<open>release\<close>, \<open>shrink\<close>, \<open>query\<close> and
  \<open>reset\<close> calls reaches from a new allocator, the \<open>emptyBlockCount\<close> of each pool is
  0 or 1. (A sequence reaches a state when none of its calls is undefined.)
\<close>

theorem emptyBlockCount_invariant:
  assumes "run (JitAllocator_new plat params) ops = Some (Some impl)"
    and "pool \<in> set (i_pools impl)"
  shows "p_emptyBlockCount pool = 0 \<or> p_emptyBlockCount pool = 1"
proof -
  have "allocator_empty_ok (JitAllocator_new plat params)"
    by (cases "JitAllocatorImpl_new plat params")
       (simp_all add: allocator_empty_ok_def JitAllocator_new_def new_empty_ok)
  from run_empty_ok[OF assms(1) this] have "impl_empty_ok impl"
    by (simp add: allocator_empty_ok_def)
  with assms(2) have "p_emptyBlockCount pool \<le> 1"
    by (simp add: impl_empty_ok_def pool_empty_ok_def)
  then show ?thesis by auto
qed

text \<open>The example after \<open>release\<close> of its only allocation: the block stays as the empty one.\<close>

definition example_impl2 :: JitAllocatorPrivateImpl where
  "example_impl2 =
     \<lparr>i_options = {}, i_blockSize = 65536, i_granularity = 256,
      i_fillPattern = 3435973836, i_pageSize = 4096, i_allocationCount = 0,
      i_pools =
        [\<lparr>p_blocks =
            [\<lparr>b_pool = 0, b_rx = 1048576, b_rw = 1048576,
              b_blockSize = 131072,
              b_flags = {kFlagInitialPadding, kFlagEmpty},
              b_areaSize = 512, b_areaUsed = 1,
              b_largestUnusedArea = 511, b_searchStart = 1,
              b_searchEnd = 512,
              b_usedBitVector = [1, 0, 0, 0, 0, 0, 0, 0],
              b_stopBitVector = [1, 0, 0, 0, 0, 0, 0, 0]\<rparr>],
          p_cursor = Some 1048576, p_blockCount = 1, p_granularity = 256,
          p_granularityLog2 = 8, p_emptyBlockCount = 1,
          p_totalAreaSize = 512, p_totalAreaUsed = 1,
          p_totalOverheadBytes = 232\<rparr>]\<rparr>"

lemma example_step_alloc:
  "step (Some example_impl0) (OpAlloc example_vm 100) = Some (Some example_impl1)"
  by (simp add: example_impl0_def example_impl1_def example_vm_def eval_defs
           split del: if_split)

lemma example_release:
  "release (Some example_impl1) 1048832 = Some (kErrorOk, Some example_impl2)"
  by (simp add: example_impl1_def example_impl2_def eval_defs split del: if_split)

lemma example_step_release:
  "step (Some example_impl1) (OpRelease 1048832) = Some (Some example_impl2)"
  by (simp add: example_release)

lemma example_run:
  "run (JitAllocator_new example_platform (Some example_params))
       [OpAlloc example_vm 100, OpRelease 1048832] = Some (Some example_impl2)"
  by (simp add: example_new example_step_alloc example_step_release del: step.simps)

theorem emptyBlockCount_invariant_witness:
  "run (JitAllocator_new example_platform (Some example_params))
       [OpAlloc example_vm 100, OpRelease 1048832] = Some (Some example_impl2)
   \<and> hd (i_pools example_impl2) \<in> set (i_pools example_impl2)
   \<and> p_emptyBlockCount (hd (i_pools example_impl2)) = 1"
proof -
  have m: "hd (i_pools example_impl2) \<in> set (i_pools example_impl2)"
    by (simp add: example_impl2_def)
  have "p_emptyBlockCount (hd (i_pools example_impl2)) \<noteq> 0"
    by (simp add: example_impl2_def)
  with emptyBlockCount_invariant[OF example_run m] example_run m show ?thesis by simp
qed

section \<open>The block that alloc creates\<close>

text \<open>
  The pool that \<open>alloc\<close> selects for a request of \<open>n\<close> bytes, and whether its search
  through the blocks of that pool ends without an area for the request.
\<close>

definition alloc_poolId :: "JitAllocatorPrivateImpl \<Rightarrow> nat \<Rightarrow> nat" where
  "alloc_poolId impl n = JitAllocatorImpl_sizeToPoolId impl (alignUp n (i_granularity impl))"

definition alloc_noFit :: "JitAllocatorPrivateImpl \<Rightarrow> nat \<Rightarrow> bool" where
  "alloc_noFit impl n =
     (let pool = i_pools impl ! alloc_poolId impl n
      in case alloc_search (areaSizeFromByteSize pool (alignUp n (i_granularity impl))) (p_blocks pool) of
           None \<Rightarrow> False
         | Some (found, blocks1) \<Rightarrow> found = None)"

lemma lastBlockSize_same:
  assumes "list_all2 same_but_hints blocks blocks1"
  shows "lastBlockSize impl (pool\<lparr>p_blocks := blocks1\<rparr>) = lastBlockSize impl (pool\<lparr>p_blocks := blocks\<rparr>)"
proof (cases "blocks = []")
  case True
  with assms show ?thesis by (simp add: lastBlockSize_def)
next
  case False
  from assms have len: "length blocks1 = length blocks" by (simp add: list_all2_lengthD)
  with False have ne: "blocks1 \<noteq> []" by auto
  from False have k: "length blocks - 1 < length blocks" by (cases blocks) simp_all
  from list_all2_nthD[OF assms k]
  have "same_but_hints (blocks ! (length blocks - 1)) (blocks1 ! (length blocks - 1))" .
  then have "b_blockSize (blocks1 ! (length blocks - 1)) = b_blockSize (blocks ! (length blocks - 1))"
    by (rule same_but_hints_fields)
  with False ne len show ?thesis by (simp add: lastBlockSize_def last_conv_nth)
qed

lemma alloc_newBlock_created:
  assumes "alloc_newBlock impl vm poolId pool areaSize size' = Some (kErrorOk, outs', Some impl')"
    and "poolId < length (i_pools impl)"
  shows "length (p_blocks (i_pools impl' ! poolId)) = length (p_blocks pool) + 1"
    and "b_blockSize (last (p_blocks (i_pools impl' ! poolId)))
           = JitAllocatorImpl_calculateIdealBlockSize impl pool size'"
proof -
  from assms(1) have "length (p_blocks (i_pools impl' ! poolId)) = length (p_blocks pool) + 1
      \<and> b_blockSize (last (p_blocks (i_pools impl' ! poolId)))
           = JitAllocatorImpl_calculateIdealBlockSize impl pool size'"
  proof (cases rule: alloc_newBlock_shape)
    case overflow
    then show ?thesis by simp
  next
    case (vmError err)
    from newBlock_error[OF vmError(2)] vmError(3) show ?thesis by auto
  next
    case (created block0)
    define block1 where "block1 = block0\<lparr>b_searchStart := uint32_t (b_searchStart block0 + areaSize),
                       b_largestUnusedArea := uint32_sub (b_largestUnusedArea block0) areaSize\<rparr>"
    define pool3 where "pool3 = (JitAllocatorImpl_insertBlock pool block0)\<lparr>p_blocks := p_blocks pool @ [block1]\<rparr>"
    from created(3) have fin: "alloc_finish impl poolId pool3 (length (p_blocks pool))
        (initialAreaStart block0) areaSize size' = Some (kErrorOk, outs', Some impl')"
      by (simp add: pool3_def block1_def)
    have b3: "p_blocks pool3 = p_blocks pool @ [block1]" by (simp add: pool3_def)
    from fin show ?thesis
    proof (rule alloc_finish_shape)
      fix pool' block'
      assume m: "markAllocatedArea pool3 (p_blocks pool3 ! length (p_blocks pool)) (initialAreaStart block0)
                   (uint32_t (initialAreaStart block0 + areaSize)) = Some (pool', block')"
        and a: "Some impl' = Some (impl\<lparr>i_allocationCount := size_t (i_allocationCount impl + 1),
                      i_pools := (i_pools impl)[poolId := pool'\<lparr>p_blocks := (p_blocks pool')[length (p_blocks pool) := block']\<rparr>]\<rparr>)"
      have nth: "p_blocks pool3 ! length (p_blocks pool) = block1" by (simp add: b3)
      from markAllocatedArea_fields(1)[OF m] have pb: "p_blocks pool' = p_blocks pool @ [block1]"
        by (simp add: b3)
      from markAllocatedArea_fields(5)[OF m] nth have bs: "b_blockSize block' = b_blockSize block0"
        by (simp add: block1_def)
      from a assms(2) have "p_blocks (i_pools impl' ! poolId) = (p_blocks pool')[length (p_blocks pool) := block']"
        by simp
      with pb have "p_blocks (i_pools impl' ! poolId) = p_blocks pool @ [block']" by simp
      with bs newBlock_fields(2)[OF created(2)] show ?thesis by simp
    qed
  qed
  then show "length (p_blocks (i_pools impl' ! poolId)) = length (p_blocks pool) + 1"
    and "b_blockSize (last (p_blocks (i_pools impl' ! poolId)))
           = JitAllocatorImpl_calculateIdealBlockSize impl pool size'"
    by simp_all
qed

text \<open>
  C3, as the code has it. Let \<open>alloc\<close> succeed for a request of \<open>n\<close> bytes after its
  search has found no area in the blocks of the selected pool, on an allocator with at
  least one pool and a configured block size that is positive and fits its \<open>uint32_t\<close>
  field. Then the pool has one more block, its last, and the size of this block is
  \<open>next = (if B < 32 MiB then 2 * B else B)\<close>, where \<open>B\<close> is the size of the block that
  was the last of the pool (the configured block size when the pool had none), unless
  the rounded request with its padding exceeds \<open>next\<close>: then it is the rounded request
  with its padding, rounded up to a multiple of the configured block size. The rounded
  request is \<open>n\<close> rounded up to the granularity of the allocator; the padding is 64
  bytes unless the option \<open>kDisableInitialPadding\<close> is set. \<open>next\<close> is
  \<open>min (32 MiB) (2 * B)\<close> whenever \<open>2 * B \<le> 32 MiB\<close> or \<open>B = 32 MiB\<close>.
\<close>

theorem alloc_new_block_size:
  assumes "alloc (Some impl) vm outs n = Some (kErrorOk, outs', Some impl')"
    and "alloc_noFit impl n"
    and "i_pools impl \<noteq> []" and "0 < i_blockSize impl" and "i_blockSize impl < 2 ^ 32"
  shows "length (p_blocks (i_pools impl' ! alloc_poolId impl n))
           = length (p_blocks (i_pools impl ! alloc_poolId impl n)) + 1
       \<and> b_blockSize (last (p_blocks (i_pools impl' ! alloc_poolId impl n))) =
           (if nextBlockSize (lastBlockSize impl (i_pools impl ! alloc_poolId impl n))
                 < paddedSize impl (alignUp n (i_granularity impl))
            then roundUpTo (paddedSize impl (alignUp n (i_granularity impl))) (i_blockSize impl)
            else nextBlockSize (lastBlockSize impl (i_pools impl ! alloc_poolId impl n)))
       \<and> (2 * lastBlockSize impl (i_pools impl ! alloc_poolId impl n) \<le> kJitAllocatorMaxBlockSize
            \<or> lastBlockSize impl (i_pools impl ! alloc_poolId impl n) = kJitAllocatorMaxBlockSize \<longrightarrow>
          nextBlockSize (lastBlockSize impl (i_pools impl ! alloc_poolId impl n))
            = min kJitAllocatorMaxBlockSize (2 * lastBlockSize impl (i_pools impl ! alloc_poolId impl n)))"
proof -
  define size' where "size' = alignUp n (i_granularity impl)"
  define poolId where "poolId = alloc_poolId impl n"
  define pool where "pool = i_pools impl ! poolId"
  define areaSize where "areaSize = areaSizeFromByteSize pool size'"
  have pid: "poolId = JitAllocatorImpl_sizeToPoolId impl size'"
    by (simp add: poolId_def alloc_poolId_def size'_def)
  from assms(3) have valid: "poolId < length (i_pools impl)"
    unfolding pid by (rule sizeToPoolId_valid)
  have nz: "size' \<noteq> 0"
  proof
    assume "size' = 0"
    with assms(1) show False by (simp add: alloc_def size'_def)
  qed
  have le: "size' \<le> UINT32_MAX div 2"
  proof (rule ccontr)
    assume "\<not> size' \<le> UINT32_MAX div 2"
    with nz assms(1) show False by (simp add: alloc_def size'_def Let_def)
  qed
  from assms(1) nz le have locked: "alloc_locked impl vm size' = Some (kErrorOk, outs', Some impl')"
    by (simp add: alloc_def size'_def Let_def)
  from assms(2) obtain blocks1 where
    search: "alloc_search areaSize (p_blocks pool) = Some (None, blocks1)"
    by (auto simp: alloc_noFit_def Let_def areaSize_def pool_def poolId_def size'_def
             split: option.splits)
  from locked search have nb:
    "alloc_newBlock impl vm poolId (pool\<lparr>p_blocks := blocks1\<rparr>) areaSize size'
       = Some (kErrorOk, outs', Some impl')"
    by (simp add: alloc_locked_def Let_def pid[symmetric] pool_def[symmetric] areaSize_def[symmetric])
  from alloc_search_same[OF search]
  have "lastBlockSize impl (pool\<lparr>p_blocks := blocks1\<rparr>) = lastBlockSize impl (pool\<lparr>p_blocks := p_blocks pool\<rparr>)"
    by (rule lastBlockSize_same)
  then have last_eq: "lastBlockSize impl (pool\<lparr>p_blocks := blocks1\<rparr>) = lastBlockSize impl pool"
    by simp
  have len: "length blocks1 = length (p_blocks pool)"
    using search by (rule alloc_search_length)
  note v = calculateIdealBlockSize_value[OF le assms(4) assms(5), of "pool\<lparr>p_blocks := blocks1\<rparr>"]
  from alloc_newBlock_created(1)[OF nb valid] len
  have c1: "length (p_blocks (i_pools impl' ! poolId)) = length (p_blocks pool) + 1" by simp
  from alloc_newBlock_created(2)[OF nb valid] v[THEN conjunct1]
  have c2: "b_blockSize (last (p_blocks (i_pools impl' ! poolId))) =
           (if nextBlockSize (lastBlockSize impl pool) < paddedSize impl size'
            then roundUpTo (paddedSize impl size') (i_blockSize impl)
            else nextBlockSize (lastBlockSize impl pool))"
    by (simp add: last_eq)
  from v[THEN conjunct2]
  have c3: "2 * lastBlockSize impl pool \<le> kJitAllocatorMaxBlockSize
            \<or> lastBlockSize impl pool = kJitAllocatorMaxBlockSize \<longrightarrow>
          nextBlockSize (lastBlockSize impl pool)
            = min kJitAllocatorMaxBlockSize (2 * lastBlockSize impl pool)"
    by (simp add: last_eq)
  from c1 c2 c3 show ?thesis
    unfolding pool_def poolId_def size'_def by (intro conjI)
qed

text \<open>
  Two requests on the new allocator of the example: 100 bytes, for which the first
  block has twice the configured block size, and 131000 bytes, which with the padding
  exceed twice the configured block size.
\<close>

definition example_impl_192K :: JitAllocatorPrivateImpl where
  "example_impl_192K =
     \<lparr>i_options = {}, i_blockSize = 65536, i_granularity = 256,
      i_fillPattern = 3435973836, i_pageSize = 4096, i_allocationCount = 1,
      i_pools =
        [\<lparr>p_blocks =
            [\<lparr>b_pool = 0, b_rx = 1048576, b_rw = 1048576,
              b_blockSize = 196608,
              b_flags = {kFlagInitialPadding, kFlagDirty},
              b_areaSize = 768, b_areaUsed = 513,
              b_largestUnusedArea = 255, b_searchStart = 513,
              b_searchEnd = 768,
              b_usedBitVector = [- 1, - 1, - 1, - 1, - 1, - 1, - 1, - 1, 1, 0, 0, 0],
              b_stopBitVector = [1, 0, 0, 0, 0, 0, 0, 0, 1, 0, 0, 0]\<rparr>],
          p_cursor = Some 1048576, p_blockCount = 1, p_granularity = 256,
          p_granularityLog2 = 8, p_emptyBlockCount = 0,
          p_totalAreaSize = 768, p_totalAreaUsed = 513,
          p_totalOverheadBytes = 296\<rparr>]\<rparr>"

lemma example_alloc_131000:
  "alloc (Some example_impl0) example_vm (7, 7) 131000
     = Some (kErrorOk, (1048832, 1048832), Some example_impl_192K)"
  by (simp add: example_impl0_def example_impl_192K_def example_vm_def eval_defs
           split del: if_split)

lemma example_noFit:
  "alloc_noFit example_impl0 100" "alloc_noFit example_impl0 131000"
  by (simp_all add: alloc_noFit_def alloc_poolId_def example_impl0_def eval_defs
           split del: if_split)

theorem alloc_new_block_size_witness:
  "alloc (Some example_impl0) example_vm (7, 7) 100
     = Some (kErrorOk, (1048832, 1048832), Some example_impl1)
   \<and> alloc (Some example_impl0) example_vm (7, 7) 131000
     = Some (kErrorOk, (1048832, 1048832), Some example_impl_192K)
   \<and> alloc_noFit example_impl0 100 \<and> alloc_noFit example_impl0 131000
   \<and> i_pools example_impl0 \<noteq> [] \<and> 0 < i_blockSize example_impl0
   \<and> i_blockSize example_impl0 < 2 ^ 32
   \<and> b_blockSize (last (p_blocks (i_pools example_impl1 ! alloc_poolId example_impl0 100)))
        = nextBlockSize (lastBlockSize example_impl0 (i_pools example_impl0 ! alloc_poolId example_impl0 100))
   \<and> b_blockSize (last (p_blocks (i_pools example_impl_192K ! alloc_poolId example_impl0 131000)))
        = roundUpTo (paddedSize example_impl0 (alignUp 131000 (i_granularity example_impl0)))
            (i_blockSize example_impl0)"
proof -
  have h3: "i_pools example_impl0 \<noteq> []" by (simp add: example_impl0_def)
  have h4: "0 < i_blockSize example_impl0" by (simp add: example_impl0_def)
  have h5: "i_blockSize example_impl0 < 2 ^ 32" by (simp add: example_impl0_def)
  have p: "alloc_poolId example_impl0 100 = 0" "alloc_poolId example_impl0 131000 = 0"
    by (simp_all add: alloc_poolId_def example_impl0_def eval_defs split del: if_split)
  have l: "lastBlockSize example_impl0 (i_pools example_impl0 ! 0) = 65536"
    by (simp add: lastBlockSize_def example_impl0_def)
  have q: "paddedSize example_impl0 (alignUp 100 (i_granularity example_impl0)) = 320"
    "paddedSize example_impl0 (alignUp 131000 (i_granularity example_impl0)) = 131136"
    by (simp_all add: paddedSize_def example_impl0_def alignUp_def size_t_def)
  have n: "nextBlockSize 65536 = 131072"
    by (simp add: nextBlockSize_def kJitAllocatorMaxBlockSize_def)
  note t1 = alloc_new_block_size[OF example_alloc example_noFit(1) h3 h4 h5]
  note t2 = alloc_new_block_size[OF example_alloc_131000 example_noFit(2) h3 h4 h5]
  have a: "b_blockSize (last (p_blocks (i_pools example_impl1 ! alloc_poolId example_impl0 100)))
        = nextBlockSize (lastBlockSize example_impl0 (i_pools example_impl0 ! alloc_poolId example_impl0 100))"
    using t1[THEN conjunct2, THEN conjunct1] by (simp add: p l q n)
  have b: "b_blockSize (last (p_blocks (i_pools example_impl_192K ! alloc_poolId example_impl0 131000)))
        = roundUpTo (paddedSize example_impl0 (alignUp 131000 (i_granularity example_impl0)))
            (i_blockSize example_impl0)"
    using t2[THEN conjunct2, THEN conjunct1] by (simp add: p l q n)
  from example_alloc example_alloc_131000 example_noFit h3 h4 h5 a b show ?thesis
    by (intro conjI)
qed

text \<open>
  The example allocator with a first block of 24 MiB, full (the state after a first
  request of \<open>24 MiB - 256\<close> bytes), and the answer of the virtual memory service for
  a second block.
\<close>

definition example_impl_24M :: JitAllocatorPrivateImpl where
  "example_impl_24M =
     \<lparr>i_options = {}, i_blockSize = 65536, i_granularity = 256,
      i_fillPattern = 3435973836, i_pageSize = 4096, i_allocationCount = 1,
      i_pools = [example_pool_24M]\<rparr>"

definition example_vm_64M :: VirtMemOutcome where
  "example_vm_64M = \<lparr>malloc_ok = True, vm_err = kErrorOk, vm_rx = 67108864, vm_rw = 67108864\<rparr>"

definition example_impl_48M :: JitAllocatorPrivateImpl where
  "example_impl_48M =
     \<lparr>i_options = {}, i_blockSize = 65536, i_granularity = 256,
      i_fillPattern = 3435973836, i_pageSize = 4096, i_allocationCount = 2,
      i_pools =
        [\<lparr>p_blocks =
            [example_block_24M,
             \<lparr>b_pool = 0, b_rx = 67108864, b_rw = 67108864,
              b_blockSize = 50331648,
              b_flags = {kFlagInitialPadding, kFlagDirty},
              b_areaSize = 196608, b_areaUsed = 2,
              b_largestUnusedArea = 196606, b_searchStart = 2,
              b_searchEnd = 196608,
              b_usedBitVector = 3 # replicate 3071 0,
              b_stopBitVector = 3 # replicate 3071 0\<rparr>],
          p_cursor = Some 1048576, p_blockCount = 2, p_granularity = 256,
          p_granularityLog2 = 8, p_emptyBlockCount = 0,
          p_totalAreaSize = 294912, p_totalAreaUsed = 98306,
          p_totalOverheadBytes = 73936\<rparr>]\<rparr>"

lemma memsetZero_replicate: "memsetZero (replicate n 0) n = Some (replicate n 0)"
  by (simp add: memsetZero_def)

lemma wordRangeMask_later:
  "index + count \<le> 64 \<Longrightarrow> 0 < a \<Longrightarrow>
     map (\<lambda>(j, w). w OR wordRangeMask index count j) (zip [a..<a + length ws] ws) = ws"
proof (induction ws arbitrary: a)
  case Nil
  then show ?case by simp
next
  case (Cons w ws)
  have "a < a + length (w # ws)" by simp
  then have "[a..<a + length (w # ws)] = a # [Suc a..<a + length (w # ws)]"
    by (rule upt_conv_Cons)
  then have u: "[a..<a + length (w # ws)] = a # [Suc a..<Suc a + length ws]" by simp
  from Cons.prems have "index - a * 64 = 0" "index + count - a * 64 = 0" by simp_all
  then have m: "wordRangeMask index count a = 0" by (simp add: wordRangeMask_def rangeMask_def)
  from Cons.IH[of "Suc a"] Cons.prems(1) m show ?case unfolding u by simp
qed

lemma bitVectorFill_first_word:
  assumes "0 < count" and "index + count \<le> 64"
  shows "bitVectorFill (w # ws) index count = Some ((w OR rangeMask index (index + count)) # ws)"
proof -
  have "0 < length (w # ws)" by simp
  then have "[0..<length (w # ws)] = 0 # [Suc 0..<length (w # ws)]"
    by (rule upt_conv_Cons)
  then have u: "[0..<length (w # ws)] = 0 # [Suc 0..<Suc 0 + length ws]" by simp
  from wordRangeMask_later[OF assms(2), of "Suc 0" ws]
  have "map (\<lambda>(j, w). w OR wordRangeMask index count j) (zip [Suc 0..<Suc 0 + length ws] ws) = ws"
    by simp
  then have "map (\<lambda>(j, w). w OR wordRangeMask index count j) (zip [0..<length (w # ws)] (w # ws))
               = (w OR rangeMask index (index + count)) # ws"
    unfolding u by (simp add: wordRangeMask_def)
  with assms show ?thesis unfolding bitVectorFill_def by simp
qed

lemma example_alloc_48M:
  "alloc (Some example_impl_24M) example_vm_64M (7, 7) 256
     = Some (kErrorOk, (67109120, 67109120), Some example_impl_48M)"
proof -
  have "replicate 3072 (0 :: BitWord) = 0 # replicate 3071 0"
    by (simp add: numeral_eq_Suc)
  with memsetZero_replicate[of 3072]
  have r: "memsetZero (replicate 3072 0) 3072 = Some (0 # replicate 3071 0)"
    by simp
  show ?thesis
    by (simp add: example_impl_24M_def example_impl_48M_def example_vm_64M_def
             example_pool_24M_def example_block_24M_def
             bitVectorFill_first_word r eval_defs
           del: replicate_numeral_eval bitVectorFill_def memsetZero_def
           split del: if_split)
qed

text \<open>
  The claim C3 as stated gives \<open>min (32 MiB) (2 * 24 MiB) = 32 MiB\<close> to the block that
  \<open>alloc(256)\<close> creates after a full last block of 24 MiB, the request with its padding
  being far smaller; the block that \<open>alloc\<close> creates has 48 MiB.
\<close>

theorem alloc_new_block_size_counterexample:
  "alloc (Some example_impl_24M) example_vm_64M (7, 7) 256
     = Some (kErrorOk, (67109120, 67109120), Some example_impl_48M)
   \<and> alloc_noFit example_impl_24M 256
   \<and> map b_blockSize (p_blocks (i_pools example_impl_24M ! alloc_poolId example_impl_24M 256))
       = [25165824]
   \<and> min kJitAllocatorMaxBlockSize (2 * 25165824) = 33554432
   \<and> \<not> 33554432 < alignUp 256 (i_granularity example_impl_24M) + 64
   \<and> map b_blockSize (p_blocks (i_pools example_impl_48M ! alloc_poolId example_impl_24M 256))
       = [25165824, 50331648]"
proof -
  have p: "alloc_poolId example_impl_24M 256 = 0"
    by (simp add: alloc_poolId_def example_impl_24M_def example_pool_24M_def eval_defs
          del: replicate_numeral_eval split del: if_split)
  have a: "alloc_noFit example_impl_24M 256"
    by (simp add: alloc_noFit_def p)
       (simp add: example_impl_24M_def example_pool_24M_def example_block_24M_def eval_defs
          del: replicate_numeral_eval split del: if_split)
  have b: "map b_blockSize (p_blocks (i_pools example_impl_24M ! alloc_poolId example_impl_24M 256))
       = [25165824]"
    by (simp add: p) (simp add: example_impl_24M_def example_pool_24M_def example_block_24M_def)
  have c: "min kJitAllocatorMaxBlockSize (2 * 25165824) = 33554432"
    by (simp add: kJitAllocatorMaxBlockSize_def)
  have d: "\<not> 33554432 < alignUp 256 (i_granularity example_impl_24M) + 64"
    by (simp add: alignUp_def size_t_def example_impl_24M_def)
  have e: "map b_blockSize (p_blocks (i_pools example_impl_48M ! alloc_poolId example_impl_24M 256))
       = [25165824, 50331648]"
    by (simp add: p) (simp add: example_impl_48M_def example_block_24M_def)
  from example_alloc_48M a b c d e show ?thesis by (intro conjI)
qed

section \<open>The state after a failing call\<close>











text \<open>
  The example allocator after \<open>alloc(100)\<close>, \<open>alloc(100)\<close> and the release of the first
  of the two areas: the free areas of its block are area 1 and the areas from 3 on.
  A request of 510 areas then finds no area in the block, and the virtual memory
  service refuses a new block.
\<close>

definition example_impl_two :: JitAllocatorPrivateImpl where
  "example_impl_two =
     \<lparr>i_options = {}, i_blockSize = 65536, i_granularity = 256,
      i_fillPattern = 3435973836, i_pageSize = 4096, i_allocationCount = 2,
      i_pools =
        [\<lparr>p_blocks =
            [\<lparr>b_pool = 0, b_rx = 1048576, b_rw = 1048576,
              b_blockSize = 131072,
              b_flags = {kFlagInitialPadding, kFlagDirty},
              b_areaSize = 512, b_areaUsed = 3,
              b_largestUnusedArea = 510, b_searchStart = 3,
              b_searchEnd = 512,
              b_usedBitVector = [7, 0, 0, 0, 0, 0, 0, 0],
              b_stopBitVector = [7, 0, 0, 0, 0, 0, 0, 0]\<rparr>],
          p_cursor = Some 1048576, p_blockCount = 1, p_granularity = 256,
          p_granularityLog2 = 8, p_emptyBlockCount = 0,
          p_totalAreaSize = 512, p_totalAreaUsed = 3,
          p_totalOverheadBytes = 232\<rparr>]\<rparr>"



lemma example_alloc_second:
  "alloc (Some example_impl1) example_vm (7, 7) 100
     = Some (kErrorOk, (1049088, 1049088), Some example_impl_two)"
  by (simp add: example_impl1_def example_impl_two_def example_vm_def eval_defs
           split del: if_split)








section \<open>The sizes of the blocks\<close>

text \<open>
  The invariant behind C4: the configured block size \<open>bs\<close> and the page size \<open>ps\<close> of
  the allocator stay as they are, and the size of every block is a positive multiple
  of \<open>bs\<close> below \<open>2 ^ 31 + 64 + bs\<close>.
\<close>

definition size_ok :: "nat \<Rightarrow> nat \<Rightarrow> bool" where
  "size_ok bs s = (bs dvd s \<and> 0 < s \<and> s < 2 ^ 31 + 64 + bs)"

definition pool_sizes_ok :: "nat \<Rightarrow> JitAllocatorPool \<Rightarrow> bool" where
  "pool_sizes_ok bs pool = (\<forall>b \<in> set (p_blocks pool). size_ok bs (b_blockSize b))"

definition impl_sizes_ok :: "nat \<Rightarrow> nat \<Rightarrow> JitAllocatorPrivateImpl \<Rightarrow> bool" where
  "impl_sizes_ok bs ps impl =
     (i_blockSize impl = bs \<and> i_pageSize impl = ps \<and> 0 < bs \<and> i_pools impl \<noteq> []
      \<and> (\<forall>pool \<in> set (i_pools impl). pool_sizes_ok bs pool))"

definition allocator_sizes_ok :: "nat \<Rightarrow> nat \<Rightarrow> JitAllocator \<Rightarrow> bool" where
  "allocator_sizes_ok bs ps a = (case a of None \<Rightarrow> True | Some impl \<Rightarrow> impl_sizes_ok bs ps impl)"

lemma impl_sizes_ok_update:
  assumes "impl_sizes_ok bs ps impl" and "pool_sizes_ok bs pool'"
    and "i_pools impl' = (i_pools impl)[poolId := pool']"
    and "i_blockSize impl' = i_blockSize impl" and "i_pageSize impl' = i_pageSize impl"
  shows "impl_sizes_ok bs ps impl'"
  using assms by (auto simp: impl_sizes_ok_def dest: set_update_cases)

lemma pool_sizes_ok_update:
  assumes "pool_sizes_ok bs pool" and "size_ok bs (b_blockSize b')"
    and "p_blocks pool' = (p_blocks pool)[k := b']"
  shows "pool_sizes_ok bs pool'"
  using assms by (auto simp: pool_sizes_ok_def dest: set_update_cases)

lemma pool_sizes_ok_nth:
  "pool_sizes_ok bs pool \<Longrightarrow> k < length (p_blocks pool) \<Longrightarrow> size_ok bs (b_blockSize (p_blocks pool ! k))"
  by (simp add: pool_sizes_ok_def)

lemma pool_sizes_ok_same:
  assumes "pool_sizes_ok bs pool" and "list_all2 same_but_hints (p_blocks pool) blocks1"
  shows "pool_sizes_ok bs (pool\<lparr>p_blocks := blocks1\<rparr>)"
proof -
  have "size_ok bs (b_blockSize b')" if "b' \<in> set blocks1" for b'
  proof -
    from that obtain i where i: "i < length blocks1" "blocks1 ! i = b'"
      by (auto simp: in_set_conv_nth)
    from assms(2) have len: "length blocks1 = length (p_blocks pool)" by (simp add: list_all2_lengthD)
    with i have k: "i < length (p_blocks pool)" by simp
    from list_all2_nthD[OF assms(2) k] i have "b_blockSize b' = b_blockSize (p_blocks pool ! i)"
      by (auto dest: same_but_hints_fields(4))
    with pool_sizes_ok_nth[OF assms(1) k] show ?thesis by simp
  qed
  then show ?thesis by (simp add: pool_sizes_ok_def)
qed

lemma set_remove_subset: "set (take k xs @ drop (Suc k) xs) \<subseteq> set xs"
  by (auto dest: in_set_takeD in_set_dropD)

lemma calculateIdealBlockSize_cases:
  assumes "n \<le> UINT32_MAX div 2"
  shows "JitAllocatorImpl_calculateIdealBlockSize impl pool n = 0
       \<or> JitAllocatorImpl_calculateIdealBlockSize impl pool n = nextBlockSize (lastBlockSize impl pool)
       \<or> JitAllocatorImpl_calculateIdealBlockSize impl pool n
            = alignUp (paddedSize impl n) (i_blockSize impl)"
proof -
  have dbl: "(if lastBlockSize impl pool < kJitAllocatorMaxBlockSize
              then size_t (lastBlockSize impl pool * 2) else lastBlockSize impl pool)
               = nextBlockSize (lastBlockSize impl pool)"
    by (simp add: nextBlockSize_def size_t_def kJitAllocatorMaxBlockSize_def)
  show ?thesis
    unfolding JitAllocatorImpl_calculateIdealBlockSize_def lastBlockSize_def[symmetric]
    by (simp add: Let_def dbl paddedSize_def)
qed

lemma calculateIdealBlockSize_size_ok:
  assumes "0 < i_blockSize impl" and "n \<le> UINT32_MAX div 2"
    and "pool_sizes_ok (i_blockSize impl) pool"
    and "JitAllocatorImpl_calculateIdealBlockSize impl pool n \<noteq> 0"
  shows "size_ok (i_blockSize impl) (JitAllocatorImpl_calculateIdealBlockSize impl pool n)"
proof -
  let ?bs = "i_blockSize impl"
  let ?B = "lastBlockSize impl pool"
  let ?c = "JitAllocatorImpl_calculateIdealBlockSize impl pool n"
  have B: "size_ok ?bs ?B"
  proof (cases "p_blocks pool = []")
    case True
    with assms(1) show ?thesis by (simp add: lastBlockSize_def size_ok_def)
  next
    case False
    then have "last (p_blocks pool) \<in> set (p_blocks pool)" by simp
    with assms(3) False show ?thesis by (simp add: lastBlockSize_def pool_sizes_ok_def)
  qed
  have nx: "size_ok ?bs (nextBlockSize ?B)"
  proof (cases "?B < kJitAllocatorMaxBlockSize")
    case True
    then have "2 * ?B < 2 ^ 31 + 64 + ?bs" by (simp add: kJitAllocatorMaxBlockSize_def)
    with B True show ?thesis by (simp add: nextBlockSize_def size_ok_def)
  next
    case False
    with B show ?thesis by (simp add: nextBlockSize_def)
  qed
  have p: "paddedSize impl n < 2 ^ 31 + 64"
    using assms(2) by (simp add: paddedSize_def UINT32_MAX_def)
  have al: "alignUp (paddedSize impl n) ?bs \<noteq> 0 \<Longrightarrow> size_ok ?bs (alignUp (paddedSize impl n) ?bs)"
  proof -
    assume nz: "alignUp (paddedSize impl n) ?bs \<noteq> 0"
    have "alignUp (paddedSize impl n) ?bs \<le> size_t (paddedSize impl n + (?bs - 1))"
      by (simp add: alignUp_def)
    also have "\<dots> \<le> paddedSize impl n + (?bs - 1)" by (simp add: size_t_def)
    also have "\<dots> < 2 ^ 31 + 64 + ?bs" using p assms(1) by simp
    finally have "alignUp (paddedSize impl n) ?bs < 2 ^ 31 + 64 + ?bs" .
    moreover have "?bs dvd alignUp (paddedSize impl n) ?bs" by (simp add: alignUp_def)
    ultimately show ?thesis using nz by (simp add: size_ok_def)
  qed
  from calculateIdealBlockSize_cases[OF assms(2), of impl pool] assms(4) nx al
  show ?thesis by auto
qed

lemma alloc_finish_sizes_ok:
  assumes r: "alloc_finish impl poolId pool k areaIndex areaSize size' = Some (err, outs, Some impl')"
    and ok: "impl_sizes_ok bs ps impl" and k: "k < length (p_blocks pool)"
    and pk: "pool_sizes_ok bs pool"
  shows "impl_sizes_ok bs ps impl'"
  using r
proof (rule alloc_finish_shape)
  fix pool' block'
  assume m: "markAllocatedArea pool (p_blocks pool ! k) areaIndex (uint32_t (areaIndex + areaSize)) = Some (pool', block')"
    and a: "Some impl' = Some (impl\<lparr>i_allocationCount := size_t (i_allocationCount impl + 1),
                      i_pools := (i_pools impl)[poolId := pool'\<lparr>p_blocks := (p_blocks pool')[k := block']\<rparr>]\<rparr>)"
  define pool'' where "pool'' = pool'\<lparr>p_blocks := (p_blocks pool')[k := block']\<rparr>"
  note f = markAllocatedArea_fields[OF m]
  have pb: "p_blocks pool' = p_blocks pool" by (simp add: f(1))
  from pool_sizes_ok_nth[OF pk k] f(5) have "size_ok bs (b_blockSize block')" by simp
  with pk have "pool_sizes_ok bs pool''"
    by (rule pool_sizes_ok_update) (simp add: pool''_def pb)
  moreover from a have "i_pools impl' = (i_pools impl)[poolId := pool'']"
    "i_blockSize impl' = i_blockSize impl" "i_pageSize impl' = i_pageSize impl"
    by (simp_all add: pool''_def)
  ultimately show ?thesis using ok impl_sizes_ok_update by blast
qed

lemma alloc_found_sizes_ok:
  assumes r: "alloc_found impl poolId pool k areaIndex areaSize size' = Some (err, outs, Some impl')"
    and ok: "impl_sizes_ok bs ps impl" and k: "k < length (p_blocks pool)"
    and pk: "pool_sizes_ok bs pool"
  shows "impl_sizes_ok bs ps impl'"
proof -
  define b where "b = p_blocks pool ! k"
  define pool2 where "pool2 =
     (if hasFlag b kFlagEmpty
      then pool\<lparr>p_emptyBlockCount := uint8_sub (p_emptyBlockCount pool) 1,
                p_blocks := (p_blocks pool)[k := b\<lparr>b_flags := b_flags b - {kFlagEmpty}\<rparr>]\<rparr>
      else pool)"
  from r have r2: "alloc_finish impl poolId pool2 k areaIndex areaSize size' = Some (err, outs, Some impl')"
    by (cases "hasFlag b kFlagEmpty") (simp_all add: alloc_found_def Let_def pool2_def b_def)
  have k2: "k < length (p_blocks pool2)" using k by (simp add: pool2_def)
  have "size_ok bs (b_blockSize (b\<lparr>b_flags := b_flags b - {kFlagEmpty}\<rparr>))"
    using pool_sizes_ok_nth[OF pk k] by (simp add: b_def)
  with pk have "pool_sizes_ok bs (pool\<lparr>p_emptyBlockCount := uint8_sub (p_emptyBlockCount pool) 1,
                p_blocks := (p_blocks pool)[k := b\<lparr>b_flags := b_flags b - {kFlagEmpty}\<rparr>]\<rparr>)"
    by (rule pool_sizes_ok_update) simp
  with pk have "pool_sizes_ok bs pool2" by (simp add: pool2_def)
  from alloc_finish_sizes_ok[OF r2 ok k2 this] show ?thesis .
qed

lemma alloc_newBlock_sizes_ok:
  assumes r: "alloc_newBlock impl vm poolId pool areaSize size' = Some (err, outs, Some impl')"
    and ok: "impl_sizes_ok bs ps impl" and pk: "pool_sizes_ok bs pool"
    and le: "size' \<le> UINT32_MAX div 2"
  shows "impl_sizes_ok bs ps impl'"
  using r
proof (cases rule: alloc_newBlock_shape)
  case overflow
  then have "i_pools impl' = (i_pools impl)[poolId := pool]"
    "i_blockSize impl' = i_blockSize impl" "i_pageSize impl' = i_pageSize impl" by simp_all
  with ok pk show ?thesis by (rule impl_sizes_ok_update)
next
  case (vmError e)
  then have "i_pools impl' = (i_pools impl)[poolId := pool]"
    "i_blockSize impl' = i_blockSize impl" "i_pageSize impl' = i_pageSize impl" by simp_all
  with ok pk show ?thesis by (rule impl_sizes_ok_update)
next
  case (created block0)
  define block1 where "block1 = block0\<lparr>b_searchStart := uint32_t (b_searchStart block0 + areaSize),
                          b_largestUnusedArea := uint32_sub (b_largestUnusedArea block0) areaSize\<rparr>"
  define pool3 where "pool3 = (JitAllocatorImpl_insertBlock pool block0)\<lparr>p_blocks := p_blocks pool @ [block1]\<rparr>"
  from created(3) have r2: "alloc_finish impl poolId pool3 (length (p_blocks pool))
                              (initialAreaStart block0) areaSize size' = Some (err, outs, Some impl')"
    by (simp add: pool3_def block1_def)
  have pb: "p_blocks pool3 = p_blocks pool @ [block1]" by (simp add: pool3_def)
  have k3: "length (p_blocks pool) < length (p_blocks pool3)" by (simp add: pb)
  from ok have bs: "i_blockSize impl = bs" "0 < i_blockSize impl" by (simp_all add: impl_sizes_ok_def)
  from pk bs have pk': "pool_sizes_ok (i_blockSize impl) pool" by simp
  from calculateIdealBlockSize_size_ok[OF bs(2) le pk' created(1)] newBlock_fields(2)[OF created(2)] bs(1)
  have "size_ok bs (b_blockSize block1)" by (simp add: block1_def)
  with pk have "pool_sizes_ok bs pool3" by (auto simp: pool_sizes_ok_def pb)
  from alloc_finish_sizes_ok[OF r2 ok k3 this] show ?thesis .
qed

lemma alloc_locked_sizes_ok:
  assumes r: "alloc_locked impl vm size' = Some (err, outs, Some impl')" and ok: "impl_sizes_ok bs ps impl"
    and le: "size' \<le> UINT32_MAX div 2"
  shows "impl_sizes_ok bs ps impl'"
proof -
  let ?poolId = "JitAllocatorImpl_sizeToPoolId impl size'"
  let ?pool = "i_pools impl ! ?poolId"
  let ?areaSize = "areaSizeFromByteSize ?pool size'"
  from ok have "?poolId < length (i_pools impl)" by (simp add: impl_sizes_ok_def sizeToPoolId_valid)
  then have "?pool \<in> set (i_pools impl)" by simp
  with ok have pk: "pool_sizes_ok bs ?pool" by (simp add: impl_sizes_ok_def)
  from r obtain found blocks1 where s: "alloc_search ?areaSize (p_blocks ?pool) = Some (found, blocks1)"
    by (auto simp: alloc_locked_def Let_def split: option.splits)
  from pool_sizes_ok_same[OF pk alloc_search_same[OF s]]
  have pk1: "pool_sizes_ok bs (?pool\<lparr>p_blocks := blocks1\<rparr>)" .
  show ?thesis
  proof (cases found)
    case None
    with r s have "alloc_newBlock impl vm ?poolId (?pool\<lparr>p_blocks := blocks1\<rparr>) ?areaSize size'
                     = Some (err, outs, Some impl')"
      by (simp add: alloc_locked_def Let_def)
    from alloc_newBlock_sizes_ok[OF this ok pk1 le] show ?thesis .
  next
    case (Some ka)
    obtain k areaIndex where ka: "ka = (k, areaIndex)" by (cases ka)
    with Some r s have f: "alloc_found impl ?poolId (?pool\<lparr>p_blocks := blocks1\<rparr>) k areaIndex ?areaSize size'
                     = Some (err, outs, Some impl')"
      by (simp add: alloc_locked_def Let_def)
    from s Some ka alloc_search_found[of ?areaSize "p_blocks ?pool" k areaIndex blocks1]
         alloc_search_length[OF s]
    have "k < length (p_blocks (?pool\<lparr>p_blocks := blocks1\<rparr>))" by simp
    from alloc_found_sizes_ok[OF f ok this pk1] show ?thesis .
  qed
qed

lemma alloc_sizes_ok:
  assumes "alloc (Some impl) vm outs n = Some (err, outs', Some impl')" and "impl_sizes_ok bs ps impl"
  shows "impl_sizes_ok bs ps impl'"
proof (cases "alignUp n (i_granularity impl) = 0 \<or> UINT32_MAX div 2 < alignUp n (i_granularity impl)")
  case True
  with assms show ?thesis by (auto simp: alloc_def Let_def split: if_splits)
next
  case False
  with assms(1) have "alloc_locked impl vm (alignUp n (i_granularity impl)) = Some (err, outs', Some impl')"
    by (simp add: alloc_def Let_def)
  from alloc_locked_sizes_ok[OF this assms(2)] False show ?thesis by simp
qed

lemma release_sizes_ok:
  assumes r: "release (Some impl) rxPtr = Some (err, Some impl')" and ok: "impl_sizes_ok bs ps impl"
  shows "impl_sizes_ok bs ps impl'"
  using r
proof (cases rule: release_shape)
  case null
  with ok show ?thesis by simp
next
  case unknown
  with ok show ?thesis by simp
next
  case (released poolId k areaEnd pool1 block1)
  define pool where "pool = i_pools impl ! poolId"
  define pool2 where "pool2 = pool1\<lparr>p_blocks := (p_blocks pool1)[k := block1]\<rparr>"
  from tree_get_valid[OF released(2)]
  have v: "poolId < length (i_pools impl)" "k < length (p_blocks pool)" by (simp_all add: pool_def)
  then have "pool \<in> set (i_pools impl)" by (simp add: pool_def)
  with ok have pk: "pool_sizes_ok bs pool" by (simp add: impl_sizes_ok_def)
  note f = markReleasedArea_fields[OF released(4), folded pool_def]
  have p1: "p_blocks pool1 = p_blocks pool" by (simp add: f(1))
  from pool_sizes_ok_nth[OF pk v(2)] f(5) have "size_ok bs (b_blockSize block1)" by simp
  with pk have pk2: "pool_sizes_ok bs pool2"
    by (rule pool_sizes_ok_update) (simp add: pool2_def p1)
  define pool3 where "pool3 =
     (if empty_block block1 then
        if p_emptyBlockCount pool1 \<noteq> 0 \<or> kImmediateRelease \<in> i_options impl
        then JitAllocatorImpl_removeBlock pool2 k
        else pool2\<lparr>p_emptyBlockCount := uint8_t (p_emptyBlockCount pool1 + 1)\<rparr>
      else pool2)"
  have rb: "p_blocks (JitAllocatorImpl_removeBlock pool2 k)
              = take k (p_blocks pool2) @ drop (Suc k) (p_blocks pool2)"
    by (simp add: JitAllocatorImpl_removeBlock_def Let_def)
  have "set (p_blocks (JitAllocatorImpl_removeBlock pool2 k)) \<subseteq> set (p_blocks pool2)"
    unfolding rb by (rule set_remove_subset)
  then have "set (p_blocks pool3) \<subseteq> set (p_blocks pool2)"
    by (simp add: pool3_def)
  with pk2 have "pool_sizes_ok bs pool3" by (auto simp: pool_sizes_ok_def)
  moreover from released(6) have "i_pools impl' = (i_pools impl)[poolId := pool3]"
    "i_blockSize impl' = i_blockSize impl" "i_pageSize impl' = i_pageSize impl"
    by (simp_all add: pool3_def pool2_def)
  ultimately show ?thesis using ok impl_sizes_ok_update by blast
qed

lemma shrink_sizes_ok:
  assumes r: "shrink (Some impl) rxPtr newSize = Some (err, Some impl')" and ok: "impl_sizes_ok bs ps impl"
  shows "impl_sizes_ok bs ps impl'"
proof (cases "newSize = 0")
  case True
  show ?thesis
  proof (cases "rxPtr = 0")
    case True
    with r ok show ?thesis by (simp add: shrink_def)
  next
    case False
    with r \<open>newSize = 0\<close> have "release (Some impl) rxPtr = Some (err, Some impl')"
      by (simp add: shrink_def)
    from release_sizes_ok[OF this ok] show ?thesis .
  qed
next
  case False
  from r False show ?thesis
  proof (cases rule: shrink_shape)
    case failed
    with ok show ?thesis by simp
  next
    case same
    with ok show ?thesis by simp
  next
    case (shrunk poolId k s e pool1 block1)
    define pool where "pool = i_pools impl ! poolId"
    from tree_get_valid[OF shrunk(1)]
    have v: "poolId < length (i_pools impl)" "k < length (p_blocks pool)" by (simp_all add: pool_def)
    then have "pool \<in> set (i_pools impl)" by (simp add: pool_def)
    with ok have pk: "pool_sizes_ok bs pool" by (simp add: impl_sizes_ok_def)
    note f = markShrunkArea_fields[OF shrunk(2), folded pool_def]
    have p1: "p_blocks pool1 = p_blocks pool" by (simp add: f(1))
    from pool_sizes_ok_nth[OF pk v(2)] f(5) have "size_ok bs (b_blockSize block1)" by simp
    with pk have "pool_sizes_ok bs (pool1\<lparr>p_blocks := (p_blocks pool1)[k := block1]\<rparr>)"
      by (rule pool_sizes_ok_update) (simp add: p1)
    moreover from shrunk(4)
    have "i_pools impl' = (i_pools impl)[poolId := pool1\<lparr>p_blocks := (p_blocks pool1)[k := block1]\<rparr>]"
      "i_blockSize impl' = i_blockSize impl" "i_pageSize impl' = i_pageSize impl"
      by simp_all
    ultimately show ?thesis using ok impl_sizes_ok_update by blast
  qed
qed

lemma reset_pool_sizes_ok:
  assumes "reset_pool impl policy pool = Some pool'" and "pool_sizes_ok bs pool"
  shows "pool_sizes_ok bs pool'"
proof (cases "policy \<noteq> kHard \<and> kImmediateRelease \<notin> i_options impl")
  case False
  with assms show ?thesis by (auto simp: reset_pool_def pool_reset_def pool_sizes_ok_def)
next
  case True
  with assms(1) obtain b0 others b where bl: "p_blocks pool = b0 # others"
    and w: "JitAllocatorImpl_wipeOutBlock b0 = Some b"
    and p: "pool' = (JitAllocatorImpl_insertBlock (pool_reset pool) b)\<lparr>p_emptyBlockCount := 1\<rparr>"
    by (auto simp: reset_pool_def split: list.splits option.splits)
  from w have "b_blockSize b = b_blockSize b0"
    by (auto simp: JitAllocatorImpl_wipeOutBlock_def split: if_splits dest: clearBlock_fields(4))
  moreover from assms(2) bl have "size_ok bs (b_blockSize b0)" by (simp add: pool_sizes_ok_def)
  ultimately show ?thesis
    by (simp add: p pool_sizes_ok_def JitAllocatorImpl_insertBlock_def pool_reset_def)
qed

lemma reset_pools_sizes_ok:
  "reset_pools impl policy pools = Some pools' \<Longrightarrow> \<forall>pool \<in> set pools. pool_sizes_ok bs pool \<Longrightarrow>
     length pools' = length pools \<and> (\<forall>pool \<in> set pools'. pool_sizes_ok bs pool)"
proof (induction pools arbitrary: pools')
  case Nil
  then show ?case by simp
next
  case (Cons pool pools)
  from Cons.prems(1) obtain p' ps' where p: "reset_pool impl policy pool = Some p'"
    and ps: "reset_pools impl policy pools = Some ps'" and e: "pools' = p' # ps'"
    by (auto split: option.splits)
  from reset_pool_sizes_ok[OF p] Cons.prems(2) have "pool_sizes_ok bs p'" by simp
  moreover from Cons.IH[OF ps] Cons.prems(2)
  have "length ps' = length pools \<and> (\<forall>pool \<in> set ps'. pool_sizes_ok bs pool)" by simp
  ultimately show ?case using e by simp
qed

lemma reset_sizes_ok:
  assumes "reset (Some impl) policy = Some (Some impl')" and "impl_sizes_ok bs ps impl"
  shows "impl_sizes_ok bs ps impl'"
proof -
  from assms(1) obtain pools where r: "reset_pools impl policy (i_pools impl) = Some pools"
    and i: "impl' = impl\<lparr>i_pools := pools\<rparr>"
    by (auto simp: reset_def split: option.splits)
  from reset_pools_sizes_ok[OF r, of bs] assms(2)
  have "length pools = length (i_pools impl)" "\<forall>pool \<in> set pools. pool_sizes_ok bs pool"
    by (simp_all add: impl_sizes_ok_def)
  with assms(2) i show ?thesis by (auto simp: impl_sizes_ok_def)
qed

lemma step_sizes_ok:
  assumes "step a op = Some a'" and "allocator_sizes_ok bs ps a"
  shows "allocator_sizes_ok bs ps a'"
proof (cases a)
  case None
  with assms(1) have "a' = None"
    by (cases op) (auto simp: alloc_def release_def shrink_def query_def reset_def)
  then show ?thesis by (simp add: allocator_sizes_ok_def)
next
  case (Some impl)
  with assms(2) have ok: "impl_sizes_ok bs ps impl" by (simp add: allocator_sizes_ok_def)
  show ?thesis
  proof (cases op)
    case (OpAlloc vm n)
    with assms(1) Some obtain err outs where r: "alloc (Some impl) vm (0, 0) n = Some (err, outs, a')"
      by auto
    from alloc_keeps_initialized[OF r] obtain impl' where a': "a' = Some impl'" by auto
    from alloc_sizes_ok[OF r[unfolded a'] ok] a' show ?thesis by (simp add: allocator_sizes_ok_def)
  next
    case (OpRelease p)
    with assms(1) Some obtain err where r: "release (Some impl) p = Some (err, a')" by auto
    then obtain impl' where a': "a' = Some impl'" by (cases rule: release_shape) auto
    from release_sizes_ok[OF r[unfolded a'] ok] a' show ?thesis by (simp add: allocator_sizes_ok_def)
  next
    case (OpShrink p n)
    with assms(1) Some obtain err where r: "shrink (Some impl) p n = Some (err, a')" by auto
    have "\<exists>impl'. a' = Some impl'"
    proof (cases "n = 0")
      case True
      show ?thesis
      proof (cases "p = 0")
        case True
        with r show ?thesis by (auto simp: shrink_def)
      next
        case False
        with r \<open>n = 0\<close> have "release (Some impl) p = Some (err, a')" by (simp add: shrink_def)
        then show ?thesis by (cases rule: release_shape) auto
      qed
    next
      case False
      with r show ?thesis by (cases rule: shrink_shape) auto
    qed
    then obtain impl' where a': "a' = Some impl'" by auto
    from shrink_sizes_ok[OF r[unfolded a'] ok] a' show ?thesis by (simp add: allocator_sizes_ok_def)
  next
    case (OpQuery p)
    with assms Some show ?thesis by auto
  next
    case (OpReset policy)
    with assms(1) Some have r: "reset (Some impl) policy = Some a'" by simp
    then obtain impl' where a': "a' = Some impl'" by (auto simp: reset_def split: option.splits)
    from reset_sizes_ok[OF r[unfolded a'] ok] a' show ?thesis by (simp add: allocator_sizes_ok_def)
  qed
qed

lemma run_sizes_ok:
  "run a ops = Some a' \<Longrightarrow> allocator_sizes_ok bs ps a \<Longrightarrow> allocator_sizes_ok bs ps a'"
proof (induction ops arbitrary: a)
  case Nil
  then show ?case by simp
next
  case (Cons op ops)
  from Cons.prems(1) obtain a1 where s: "step a op = Some a1" and r: "run a1 ops = Some a'"
    by (auto split: option.splits)
  from step_sizes_ok[OF s Cons.prems(2)] have "allocator_sizes_ok bs ps a1" .
  from Cons.IH[OF r this] show ?case .
qed

lemma run_uninitialized: "run None ops = Some a' \<Longrightarrow> a' = None"
proof (induction ops)
  case Nil
  then show ?case by simp
next
  case (Cons op ops)
  have "step None op = Some None"
    by (cases op) (simp_all add: alloc_def release_def shrink_def query_def reset_def)
  with Cons show ?case by simp
qed

text \<open>The configured block size of a new allocator, and the powers of two.\<close>

lemma isPowerOf2_power: "isPowerOf2 x \<Longrightarrow> \<exists>k. x = 2 ^ k"
proof (induction x rule: isPowerOf2.induct)
  case (1 x)
  show ?case
  proof (cases "x \<le> 1")
    case True
    with "1.prems" have "x = 1" by (simp add: isPowerOf2.simps)
    then have "x = 2 ^ 0" by simp
    then show ?thesis by blast
  next
    case False
    with "1.prems" have e: "even x" and p: "isPowerOf2 (x div 2)"
      by (simp_all add: isPowerOf2.simps[of x])
    from "1.IH"[OF False] e p obtain k where "x div 2 = 2 ^ k" by blast
    with e have "x = 2 ^ Suc k" by auto
    then show ?thesis by blast
  qed
qed

lemma power2_dvd:
  assumes "isPowerOf2 x" and "isPowerOf2 y" and "x \<le> (y :: nat)"
  shows "x dvd y"
proof -
  from isPowerOf2_power[OF assms(1)] obtain j where j: "x = 2 ^ j" by blast
  from isPowerOf2_power[OF assms(2)] obtain k where k: "y = 2 ^ k" by blast
  from assms(3) j k have "(2 :: nat) ^ j \<le> 2 ^ k" by simp
  then have "j \<le> k" by simp
  then have "(2 :: nat) ^ j dvd 2 ^ k" by (rule le_imp_power_dvd)
  with j k show ?thesis by simp
qed

lemma new_blockSize:
  assumes "JitAllocatorImpl_new plat params = Some impl"
  shows "i_pageSize impl = vmInfo_pageSize plat"
    and "i_blockSize impl = vmInfo_pageGranularity plat
         \<or> (65536 \<le> i_blockSize impl \<and> isPowerOf2 (i_blockSize impl))"
proof -
  define P where "P = (case params of None \<Rightarrow> JitAllocatorParams_none | Some p \<Rightarrow> p)"
  define bs where "bs = (if cp_blockSize P < 64 * 1024 \<or> 256 * 1024 * 1024 < cp_blockSize P
                            \<or> \<not> isPowerOf2 (cp_blockSize P)
                         then vmInfo_pageGranularity plat else cp_blockSize P)"
  from assms have ok: "malloc_impl_ok plat"
    by (cases "malloc_impl_ok plat") (simp_all add: JitAllocatorImpl_new_def Let_def)
  with assms have "i_pageSize impl = vmInfo_pageSize plat \<and> i_blockSize impl = bs"
    unfolding JitAllocatorImpl_new_def Let_def P_def[symmetric] bs_def[symmetric]
    by (auto split del: if_split)
  then show "i_pageSize impl = vmInfo_pageSize plat"
    and "i_blockSize impl = vmInfo_pageGranularity plat
         \<or> (65536 \<le> i_blockSize impl \<and> isPowerOf2 (i_blockSize impl))"
    by (auto simp: bs_def)
qed

lemma new_sizes_ok:
  assumes "JitAllocatorImpl_new plat params = Some impl" and "0 < i_blockSize impl"
  shows "impl_sizes_ok (i_blockSize impl) (vmInfo_pageSize plat) impl"
proof -
  from new_pools[OF assms(1)] obtain g n where n: "0 < n"
    and p: "i_pools impl = map (\<lambda>poolId. JitAllocatorPool_new (uint32_t (g * 2 ^ poolId))) [0..<n]"
    by blast
  from n p have "i_pools impl \<noteq> []" by simp
  moreover have "pool_sizes_ok bs (JitAllocatorPool_new x)" for bs x
    by (simp add: pool_sizes_ok_def JitAllocatorPool_new_def)
  ultimately show ?thesis using p assms(2) new_blockSize(1)[OF assms(1)]
    by (auto simp: impl_sizes_ok_def)
qed

text \<open>
  C4, as the code has it. Let the platform report a page size that is a power of two
  of at most 64 KiB and a page granularity that is a multiple of the page size and at
  least 64 KiB. Then in every state that a sequence of \<open>alloc\<close>, \<open>release\<close>, \<open>shrink\<close>,
  \<open>query\<close> and \<open>reset\<close> calls reaches from a new allocator, the size of every block is
  a multiple of the page size and of the configured block size, at least 64 KiB, and
  less than \<open>2 GiB + 64\<close> plus the configured block size. (256 MiB is no bound.)
\<close>

theorem block_size_bounds:
  assumes "run (JitAllocator_new plat params) ops = Some (Some impl)"
    and "isPowerOf2 (vmInfo_pageSize plat)" and "vmInfo_pageSize plat \<le> 65536"
    and "vmInfo_pageSize plat dvd vmInfo_pageGranularity plat"
    and "65536 \<le> vmInfo_pageGranularity plat"
    and "pool \<in> set (i_pools impl)" and "block \<in> set (p_blocks pool)"
  shows "i_pageSize impl dvd b_blockSize block
       \<and> i_blockSize impl dvd b_blockSize block
       \<and> 65536 \<le> b_blockSize block
       \<and> b_blockSize block < 2 ^ 31 + 64 + i_blockSize impl"
proof -
  from assms(1) obtain impl0 where new: "JitAllocatorImpl_new plat params = Some impl0"
    by (cases "JitAllocatorImpl_new plat params")
       (auto simp: JitAllocator_new_def dest: run_uninitialized)
  define bs where "bs = i_blockSize impl0"
  define ps where "ps = vmInfo_pageSize plat"
  note nb = new_blockSize[OF new]
  from nb(2) assms(5) have ge: "65536 \<le> bs" by (auto simp: bs_def)
  have pd: "ps dvd bs"
  proof (cases "i_blockSize impl0 = vmInfo_pageGranularity plat")
    case True
    with assms(4) show ?thesis by (simp add: bs_def ps_def)
  next
    case False
    with nb(2) have p2: "isPowerOf2 bs" by (simp add: bs_def)
    from assms(3) ge have "ps \<le> bs" by (simp add: ps_def)
    with assms(2) p2 show ?thesis unfolding ps_def by (intro power2_dvd)
  qed
  from ge have "0 < i_blockSize impl0" by (simp add: bs_def)
  from new_sizes_ok[OF new this] have "allocator_sizes_ok bs ps (JitAllocator_new plat params)"
    by (simp add: allocator_sizes_ok_def JitAllocator_new_def new bs_def ps_def)
  from run_sizes_ok[OF assms(1) this] have ok: "impl_sizes_ok bs ps impl"
    by (simp add: allocator_sizes_ok_def)
  with assms(6,7) have s: "size_ok bs (b_blockSize block)"
    by (simp add: impl_sizes_ok_def pool_sizes_ok_def)
  from ok have c: "i_blockSize impl = bs" "i_pageSize impl = ps" by (simp_all add: impl_sizes_ok_def)
  from s have d: "bs dvd b_blockSize block" and pos: "0 < b_blockSize block"
    and ub: "b_blockSize block < 2 ^ 31 + 64 + bs"
    by (simp_all add: size_ok_def)
  from d pos have "bs \<le> b_blockSize block" by (rule dvd_imp_le)
  with ge have "65536 \<le> b_blockSize block" by simp
  moreover from pd d have "ps dvd b_blockSize block" by (rule dvd_trans)
  ultimately show ?thesis using c d ub by simp
qed

text \<open>
  The example: the first block of the new allocator, and the block that a request of
  256 MiB creates in the new allocator.
\<close>

lemma example_run_alloc:
  "run (JitAllocator_new example_platform (Some example_params)) [OpAlloc example_vm 100]
     = Some (Some example_impl1)"
  by (simp add: example_new example_step_alloc del: step.simps)

lemma example_alloc_256M:
  "map_option (\<lambda>(err, outs, a).
       (err, outs, map_option (\<lambda>impl. map (\<lambda>pool. map b_blockSize (p_blocks pool)) (i_pools impl)) a))
     (alloc (Some example_impl0) example_vm (7, 7) 268435456)
     = Some (kErrorOk, (1048832, 1048832), Some [[268500992]])"
  by (simp add: example_impl0_def example_vm_def eval_defs
        del: replicate_numeral_eval upt_0_numeral_eval upt_1_numeral_eval upt_rec_numeral
        split del: if_split)

theorem block_size_bounds_witness:
  "run (JitAllocator_new example_platform (Some example_params)) [OpAlloc example_vm 100]
     = Some (Some example_impl1)
   \<and> isPowerOf2 (vmInfo_pageSize example_platform) \<and> vmInfo_pageSize example_platform \<le> 65536
   \<and> vmInfo_pageSize example_platform dvd vmInfo_pageGranularity example_platform
   \<and> 65536 \<le> vmInfo_pageGranularity example_platform
   \<and> hd (i_pools example_impl1) \<in> set (i_pools example_impl1)
   \<and> hd (p_blocks (hd (i_pools example_impl1))) \<in> set (p_blocks (hd (i_pools example_impl1)))
   \<and> b_blockSize (hd (p_blocks (hd (i_pools example_impl1)))) = 131072
   \<and> i_pageSize example_impl1 dvd b_blockSize (hd (p_blocks (hd (i_pools example_impl1))))
   \<and> i_blockSize example_impl1 dvd b_blockSize (hd (p_blocks (hd (i_pools example_impl1))))
   \<and> 65536 \<le> b_blockSize (hd (p_blocks (hd (i_pools example_impl1))))
   \<and> b_blockSize (hd (p_blocks (hd (i_pools example_impl1)))) < 2 ^ 31 + 64 + i_blockSize example_impl1"
proof -
  have h2: "isPowerOf2 (vmInfo_pageSize example_platform)"
    by (simp add: example_platform_def isPowerOf2.simps)
  have h3: "vmInfo_pageSize example_platform \<le> 65536" by (simp add: example_platform_def)
  have h4: "vmInfo_pageSize example_platform dvd vmInfo_pageGranularity example_platform"
    by (simp add: example_platform_def)
  have h5: "65536 \<le> vmInfo_pageGranularity example_platform" by (simp add: example_platform_def)
  have h6: "hd (i_pools example_impl1) \<in> set (i_pools example_impl1)"
    by (simp add: example_impl1_def)
  have h7: "hd (p_blocks (hd (i_pools example_impl1))) \<in> set (p_blocks (hd (i_pools example_impl1)))"
    by (simp add: example_impl1_def)
  have s: "b_blockSize (hd (p_blocks (hd (i_pools example_impl1)))) = 131072"
    by (simp add: example_impl1_def)
  note t = block_size_bounds[OF example_run_alloc h2 h3 h4 h5 h6 h7]
  from example_run_alloc h2 h3 h4 h5 h6 h7 s t[THEN conjunct1] t[THEN conjunct2, THEN conjunct1]
    t[THEN conjunct2, THEN conjunct2, THEN conjunct1] t[THEN conjunct2, THEN conjunct2, THEN conjunct2]
  show ?thesis by (intro conjI)
qed

text \<open>
  The claim C4 as stated bounds the size of every block by 256 MiB. In the new allocator
  of the example a request of 256 MiB succeeds and creates a block of
  \<open>256 MiB + 64 KiB\<close>: the request with its padding, rounded up to the configured block
  size.
\<close>

theorem block_size_bounds_counterexample:
  "JitAllocator_new example_platform (Some example_params) = Some example_impl0
   \<and> map_option (\<lambda>(err, outs, a).
       (err, outs, map_option (\<lambda>impl. map (\<lambda>pool. map b_blockSize (p_blocks pool)) (i_pools impl)) a))
     (alloc (Some example_impl0) example_vm (7, 7) 268435456)
     = Some (kErrorOk, (1048832, 1048832), Some [[268500992]])
   \<and> \<not> (268500992 :: nat) \<le> 256 * 1024 * 1024"
proof -
  have "\<not> (268500992 :: nat) \<le> 256 * 1024 * 1024" by simp
  with example_new example_alloc_256M show ?thesis by (intro conjI)
qed

section \<open>Bits of the bit vectors\<close>

text \<open>What the helpers of support.h do to the single bits of a vector.\<close>

lemma uint32_sub_eq: "b \<le> a \<Longrightarrow> a < 2 ^ 32 \<Longrightarrow> uint32_sub a b = a - b"
proof -
  assume le: "b \<le> a" and lt: "a < 2 ^ 32"
  then have b: "b mod 2 ^ 32 = b" by simp
  from le have "a + 2 ^ 32 - b = (a - b) + 2 ^ 32" by simp
  then have "(a + 2 ^ 32 - b) mod 2 ^ 32 = (a - b) mod 2 ^ 32" by (simp only: mod_add_self2)
  moreover from lt have "(a - b) mod 2 ^ 32 = a - b" by simp
  ultimately show ?thesis unfolding uint32_sub_def b by simp
qed

lemma bit_position_eq: "i div 64 = j div 64 \<Longrightarrow> i mod 64 = j mod 64 \<Longrightarrow> i = (j :: nat)"
  by (metis div_mult_mod_eq)

lemma bitVectorSetBit_bits:
  assumes "bitVectorSetBit buf index v = Some buf'"
  shows "length buf' = length buf"
    and "bitAt buf' i = (if i = index then v else bitAt buf i)"
proof -
  from assms have r: "index div 64 < length buf"
    and b: "buf' = buf[index div 64 :=
                  (if v then set_bit (index mod 64) (buf ! (index div 64))
                   else unset_bit (index mod 64) (buf ! (index div 64)))]"
    by (auto simp: bitVectorSetBit_def split: if_splits)
  from b show "length buf' = length buf" by simp
  show "bitAt buf' i = (if i = index then v else bitAt buf i)"
  proof (cases "i div 64 = index div 64")
    case False
    then have "i \<noteq> index" by auto
    with False b show ?thesis by (simp add: bitAt_def)
  next
    case True
    have m: "index mod 64 < 64" by simp
    show ?thesis
    proof (cases "i mod 64 = index mod 64")
      case True
      with \<open>i div 64 = index div 64\<close> have "i = index" by (rule bit_position_eq)
      with b r show ?thesis by (simp add: bitAt_def bit_set_bit_iff bit_unset_bit_iff)
    next
      case False
      then have "i \<noteq> index" by auto
      with False True b r show ?thesis
        by (simp add: bitAt_def bit_set_bit_iff bit_unset_bit_iff)
    qed
  qed
qed

lemma bit_rangeMask: "k < 64 \<Longrightarrow> bit (rangeMask lo hi) k \<longleftrightarrow> lo \<le> k \<and> k < hi"
  by (auto simp: rangeMask_def bit_simps)

lemma bitVectorClear_bits:
  assumes "bitVectorClear buf index count = Some buf'"
  shows "length buf' = length buf"
    and "i < length buf * 64 \<Longrightarrow> bitAt buf' i = (bitAt buf i \<and> \<not> (index \<le> i \<and> i < index + count))"
proof -
  show "length buf' = length buf"
    using assms by (auto simp: bitVectorClear_def split: if_splits)
  assume i: "i < length buf * 64"
  show "bitAt buf' i = (bitAt buf i \<and> \<not> (index \<le> i \<and> i < index + count))"
  proof (cases "count = 0")
    case True
    with assms show ?thesis by (simp add: bitVectorClear_def)
  next
    case False
    with assms have b: "buf' = map (\<lambda>(j, w). w AND NOT (wordRangeMask index count j)) (zip [0..<length buf] buf)"
      by (auto simp: bitVectorClear_def split: if_splits)
    let ?j = "i div 64"
    let ?k = "i mod 64"
    from i have j: "?j < length buf" by simp
    have k: "?k < 64" by simp
    have e: "i = ?j * 64 + ?k" by simp
    from j b have "buf' ! ?j = buf ! ?j AND NOT (wordRangeMask index count ?j)" by simp
    then have "bitAt buf' i = (bitAt buf i \<and> \<not> bit (wordRangeMask index count ?j) ?k)"
      by (simp add: bitAt_def bit_simps)
    also have "bit (wordRangeMask index count ?j) ?k \<longleftrightarrow> index - ?j * 64 \<le> ?k \<and> ?k < index + count - ?j * 64"
      unfolding wordRangeMask_def using k by (rule bit_rangeMask)
    also have "\<dots> \<longleftrightarrow> index \<le> i \<and> i < index + count"
      using e by linarith
    finally show ?thesis .
  qed
qed

lemma bitVectorIndexOf_Some:
  "bitVectorIndexOf buf s v = Some r \<Longrightarrow>
     s \<le> r \<and> r < length buf * 64 \<and> bitAt buf r = v \<and> (\<forall>i. s \<le> i \<and> i < r \<longrightarrow> bitAt buf i \<noteq> v)"
proof (induction buf s v rule: bitVectorIndexOf.induct)
  case (1 buf start v)
  show ?case
  proof (cases "length buf * 64 \<le> start")
    case True
    with "1.prems" show ?thesis by (simp add: bitVectorIndexOf.simps[of buf start])
  next
    case False
    note in_range = False
    show ?thesis
    proof (cases "bitAt buf start = v")
      case True
      with in_range "1.prems" have "r = start" by (simp add: bitVectorIndexOf.simps[of buf start])
      with in_range True show ?thesis by auto
    next
      case False
      with in_range "1.prems" have "bitVectorIndexOf buf (start + 1) v = Some r"
        by (simp add: bitVectorIndexOf.simps[of buf start])
      from "1.IH"[OF in_range False this]
      have h: "start + 1 \<le> r" "r < length buf * 64" "bitAt buf r = v"
        "\<forall>i. start + 1 \<le> i \<and> i < r \<longrightarrow> bitAt buf i \<noteq> v"
        by simp_all
      have "bitAt buf i \<noteq> v" if "start \<le> i" "i < r" for i
      proof (cases "i = start")
        case True
        with False show ?thesis by simp
      next
        case False
        with that h(4) show ?thesis by simp
      qed
      with h show ?thesis by simp
    qed
  qed
qed

lemma bitVectorIndexOf_first:
  "s \<le> r \<Longrightarrow> r < length buf * 64 \<Longrightarrow> bitAt buf r = v \<Longrightarrow>
     (\<And>i. s \<le> i \<Longrightarrow> i < r \<Longrightarrow> bitAt buf i \<noteq> v) \<Longrightarrow> bitVectorIndexOf buf s v = Some r"
proof (induction "r - s" arbitrary: s)
  case 0
  then have "s = r" by simp
  with 0 show ?case by (simp add: bitVectorIndexOf.simps[of buf r])
next
  case (Suc d)
  from Suc.hyps(2) have lt: "s < r" by simp
  with Suc.prems have "bitAt buf s \<noteq> v" by simp
  moreover from lt Suc.prems(2) have "\<not> length buf * 64 \<le> s" by simp
  moreover have "bitVectorIndexOf buf (s + 1) v = Some r"
  proof (rule Suc.hyps(1))
    from Suc.hyps(2) show "d = r - (s + 1)" by simp
    from lt show "s + 1 \<le> r" by simp
    show "r < length buf * 64" by (rule Suc.prems(2))
    show "bitAt buf r = v" by (rule Suc.prems(3))
    fix i assume "s + 1 \<le> i" "i < r"
    then show "bitAt buf i \<noteq> v" using Suc.prems(4)[of i] by simp
  qed
  ultimately show ?case by (simp add: bitVectorIndexOf.simps[of buf s])
qed

section \<open>shrink of a live allocation\<close>

text \<open>
  The lookup in the address tree depends on the addresses and sizes of the blocks only.
\<close>

lemma tree_get_same:
  assumes len: "length (i_pools impl') = length (i_pools impl)"
    and blocks: "\<And>q. q < length (i_pools impl) \<Longrightarrow>
           length (p_blocks (i_pools impl' ! q)) = length (p_blocks (i_pools impl ! q))"
    and same: "\<And>q j. q < length (i_pools impl) \<Longrightarrow> j < length (p_blocks (i_pools impl ! q)) \<Longrightarrow>
           b_rx (p_blocks (i_pools impl' ! q) ! j) = b_rx (p_blocks (i_pools impl ! q) ! j)
           \<and> b_blockSize (p_blocks (i_pools impl' ! q) ! j) = b_blockSize (p_blocks (i_pools impl ! q) ! j)"
  shows "tree_get impl' key = tree_get impl key"
proof -
  have tb: "tree_blocks impl' = tree_blocks impl"
    unfolding tree_blocks_def len
    by (rule arg_cong[where f = concat], rule map_cong) (simp_all add: blocks)
  show ?thesis
    unfolding tree_get_def tb
  proof (rule find_cong[OF refl])
    fix pos assume "pos \<in> set (tree_blocks impl)"
    then have "fst pos < length (i_pools impl)" "snd pos < length (p_blocks (i_pools impl ! fst pos))"
      using tree_blocks_valid[of "fst pos" "snd pos" impl] by simp_all
    from same[OF this]
    show "(\<not> block_lt_key (block_at impl' pos) key \<and> \<not> block_gt_key (block_at impl' pos) key)
        = (\<not> block_lt_key (block_at impl pos) key \<and> \<not> block_gt_key (block_at impl pos) key)"
      by (simp add: block_at_def block_lt_key_def block_gt_key_def)
  qed
qed

lemma tree_get_block_update:
  assumes "b_rx block' = b_rx (p_blocks (i_pools impl ! poolId) ! k)"
    and "b_blockSize block' = b_blockSize (p_blocks (i_pools impl ! poolId) ! k)"
    and "p_blocks pool' = (p_blocks (i_pools impl ! poolId))[k := block']"
    and "i_pools impl' = (i_pools impl)[poolId := pool']"
  shows "tree_get impl' key = tree_get impl key"
proof (rule tree_get_same)
  show "length (i_pools impl') = length (i_pools impl)" by (simp add: assms(4))
next
  fix q assume q: "q < length (i_pools impl)"
  show "length (p_blocks (i_pools impl' ! q)) = length (p_blocks (i_pools impl ! q))"
    using q by (cases "q = poolId") (simp_all add: assms(3,4))
next
  fix q j assume q: "q < length (i_pools impl)" and j: "j < length (p_blocks (i_pools impl ! q))"
  show "b_rx (p_blocks (i_pools impl' ! q) ! j) = b_rx (p_blocks (i_pools impl ! q) ! j)
      \<and> b_blockSize (p_blocks (i_pools impl' ! q) ! j) = b_blockSize (p_blocks (i_pools impl ! q) ! j)"
  proof (cases "q = poolId")
    case False
    with q show ?thesis by (simp add: assms(4))
  next
    case True
    with q j show ?thesis
      by (cases "j = k") (simp_all add: assms)
  qed
qed

lemma areaSizeFromByteSize_ceil:
  assumes g: "p_granularity pool = 2 ^ p_granularityLog2 pool" "p_granularity pool < 2 ^ 16"
    and m: "(n + p_granularity pool - 1) div p_granularity pool < 2 ^ 32"
  shows "areaSizeFromByteSize pool n = (n + p_granularity pool - 1) div p_granularity pool"
proof -
  let ?g = "p_granularity pool"
  let ?x = "n + ?g - 1"
  from g(1) have gp: "0 < ?g" by simp
  have "?x < (?x div ?g) * ?g + ?g"
    using gp by (metis add.commute dividend_less_div_times mult.commute)
  also have "\<dots> = (?x div ?g + 1) * ?g" by simp
  also have "\<dots> \<le> 2 ^ 32 * ?g" using m by (intro mult_right_mono) simp_all
  also have "\<dots> < 2 ^ 32 * 2 ^ 16" using g(2) by simp
  finally have "?x < 2 ^ 64" by simp
  then have "size_t ?x = ?x" by (simp add: size_t_def)
  with m show ?thesis by (simp add: areaSizeFromByteSize_def uint32_t_def g(1)[symmetric])
qed

text \<open>\<open>markShrunkArea\<close> on a tail \<open>[a, e)\<close> that lies inside the bit vectors.\<close>

lemma markShrunkArea_result:
  assumes a: "0 < a" "a < e" and e: "e \<le> length (b_usedBitVector b) * 64" "e < 2 ^ 32"
    and len: "length (b_stopBitVector b) = length (b_usedBitVector b)"
  obtains pool1 b1 where "markShrunkArea pool b a e = Some (pool1, b1)"
    and "length (b_usedBitVector b1) = length (b_usedBitVector b)"
    and "length (b_stopBitVector b1) = length (b_stopBitVector b)"
    and "\<And>i. i < length (b_usedBitVector b) * 64 \<Longrightarrow>
           bitAt (b_usedBitVector b1) i = (bitAt (b_usedBitVector b) i \<and> \<not> (a \<le> i \<and> i < e))"
    and "\<And>i. bitAt (b_stopBitVector b1) i =
           (if i = a - 1 then True else if i = e - 1 then False else bitAt (b_stopBitVector b) i)"
proof -
  from a e have sz: "uint32_sub e a = e - a" by (intro uint32_sub_eq) simp_all
  from a e have e1: "uint32_sub e 1 = e - 1" by (intro uint32_sub_eq) simp_all
  from a e have a1: "uint32_sub a 1 = a - 1" by (intro uint32_sub_eq) simp_all
  from a e obtain used' where c: "bitVectorClear (b_usedBitVector b) a (e - a) = Some used'"
    by (auto simp: bitVectorClear_def)
  from a e len have "(e - 1) div 64 < length (b_stopBitVector b)" by (simp add: less_mult_imp_div_less)
  then obtain stop0 where s0: "bitVectorSetBit (b_stopBitVector b) (e - 1) False = Some stop0"
    by (auto simp: bitVectorSetBit_def)
  note l0 = bitVectorSetBit_bits(1)[OF s0]
  from a e len have "(a - 1) div 64 < length (b_stopBitVector b)" by (simp add: less_mult_imp_div_less)
  with l0 obtain stop' where s1: "bitVectorSetBit stop0 (a - 1) True = Some stop'"
    by (auto simp: bitVectorSetBit_def)
  define pool1 where "pool1 = pool\<lparr>p_totalAreaUsed := size_t_sub (p_totalAreaUsed pool) (e - a)\<rparr>"
  define b1 where "b1 = b\<lparr>b_areaUsed := uint32_sub (b_areaUsed b) (e - a),
                 b_searchStart := min (b_searchStart b) a,
                 b_searchEnd := max (b_searchEnd b) e,
                 b_usedBitVector := used', b_stopBitVector := stop',
                 b_flags := b_flags b \<union> {kFlagDirty}\<rparr>"
  from a have nz: "\<not> (a = 0 \<or> e - a = 0)" by simp
  have r: "markShrunkArea pool b a e = Some (pool1, b1)"
    unfolding markShrunkArea_def sz e1 a1 Let_def pool1_def b1_def
    using nz c s0 s1 by simp
  show ?thesis
  proof (rule that[OF r])
    show "length (b_usedBitVector b1) = length (b_usedBitVector b)"
      using bitVectorClear_bits(1)[OF c] by (simp add: b1_def)
    show "length (b_stopBitVector b1) = length (b_stopBitVector b)"
      using bitVectorSetBit_bits(1)[OF s1] l0 by (simp add: b1_def)
  next
    fix i assume "i < length (b_usedBitVector b) * 64"
    from bitVectorClear_bits(2)[OF c this] a
    show "bitAt (b_usedBitVector b1) i = (bitAt (b_usedBitVector b) i \<and> \<not> (a \<le> i \<and> i < e))"
      by (simp add: b1_def)
  next
    fix i
    from bitVectorSetBit_bits(2)[OF s1, of i] bitVectorSetBit_bits(2)[OF s0, of i]
    show "bitAt (b_stopBitVector b1) i =
           (if i = a - 1 then True else if i = e - 1 then False else bitAt (b_stopBitVector b) i)"
      by (simp add: b1_def)
  qed
qed

text \<open>
  \<open>shrink\<close> of a live allocation that occupies the areas \<open>[areaStart, areaEnd)\<close> of a
  block, to \<open>m\<close> areas, and the \<open>query\<close> that follows: for a pool whose granularity
  is a power of two below \<open>2 ^ 16\<close> and a block whose bit vectors have the same length,
  of less than \<open>2 ^ 32\<close> bits.
\<close>

lemma shrink_live_allocation_wf:
  assumes t: "tree_get impl rx = Some (poolId, k)" and rx: "rx \<noteq> 0"
    and pool: "pool = i_pools impl ! poolId" and block: "block = p_blocks pool ! k"
    and g: "p_granularity pool = 2 ^ p_granularityLog2 pool" "p_granularity pool < 2 ^ 16"
    and len: "length (b_stopBitVector block) = length (b_usedBitVector block)"
             "length (b_usedBitVector block) * 64 < 2 ^ 32"
    and st: "areaStart = areaIndexOf pool block rx" "0 < areaStart"
    and used: "bitAt (b_usedBitVector block) areaStart"
    and stop: "areaEndOf block areaStart = Some areaEnd"
    and m: "m = (newSize + p_granularity pool - 1) div p_granularity pool" "0 < m"
           "m < areaEnd - areaStart"
  shows "\<exists>impl'. shrink (Some impl) rx newSize = Some (kErrorOk, Some impl')
           \<and> length (b_usedBitVector (p_blocks (i_pools impl' ! poolId) ! k))
               = length (b_usedBitVector block)
           \<and> (\<forall>i < length (b_usedBitVector block) * 64.
                bitAt (b_usedBitVector (p_blocks (i_pools impl' ! poolId) ! k)) i
                  = (bitAt (b_usedBitVector block) i \<and> \<not> (areaStart + m \<le> i \<and> i < areaEnd)))
           \<and> (\<forall>i. bitAt (b_stopBitVector (p_blocks (i_pools impl' ! poolId) ! k)) i
                  = (if i = areaStart + m - 1 then True else if i = areaEnd - 1 then False
                     else bitAt (b_stopBitVector block) i))
           \<and> query (Some impl') rx outs
               = Some (kErrorOk, (b_rx block + byteSizeFromAreaSize pool areaStart,
                                  b_rw block + byteSizeFromAreaSize pool areaStart,
                                  m * p_granularity pool))"
proof -
  let ?L = "length (b_usedBitVector block)"
  from tree_get_valid[OF t] have v: "poolId < length (i_pools impl)" "k < length (p_blocks pool)"
    by (simp_all add: pool)
  \<comment> \<open>the stop bit of the allocation\<close>
  from stop obtain s where ix: "bitVectorIndexOf (b_stopBitVector block) areaStart True = Some s"
    and ae: "areaEnd = uint32_t (uint32_t s + 1)"
    by (auto simp: areaEndOf_def)
  from bitVectorIndexOf_Some[OF ix] len
  have s: "areaStart \<le> s" "s < ?L * 64" "bitAt (b_stopBitVector block) s"
    and free: "\<And>i. areaStart \<le> i \<Longrightarrow> i < s \<Longrightarrow> \<not> bitAt (b_stopBitVector block) i"
    by simp_all
  from s(2) len(2) have "s + 1 < 2 ^ 32" by simp
  with ae have ae': "areaEnd = s + 1" by (simp add: uint32_t_def)
  with s len have e: "areaEnd \<le> ?L * 64" "areaEnd < 2 ^ 32" by simp_all
  from m ae' have ms: "areaStart + m \<le> s" by simp
  \<comment> \<open>the arithmetic of \<open>shrink\<close>\<close>
  from m(3) e(2) have "m < 2 ^ 32" by simp
  then have "(newSize + p_granularity pool - 1) div p_granularity pool < 2 ^ 32"
    unfolding m(1) .
  from areaSizeFromByteSize_ceil[OF g this] have am: "areaSizeFromByteSize pool newSize = m"
    by (simp add: m(1))
  have nz: "newSize \<noteq> 0"
  proof
    assume "newSize = 0"
    with g(1) m(1) have "m = 0" by simp
    with m(2) show False by simp
  qed
  from s(1,2) have "areaStart div 64 < ?L" by (simp add: less_mult_imp_div_less)
  with used have gb: "bitVectorGetBit (b_usedBitVector block) areaStart = Some True"
    by (simp add: bitVectorGetBit_def)
  from m e have prev: "uint32_sub areaEnd areaStart = areaEnd - areaStart"
    by (intro uint32_sub_eq) simp_all
  from m e have diff: "uint32_sub (areaEnd - areaStart) m = areaEnd - areaStart - m"
    by (intro uint32_sub_eq) simp_all
  from m e have sm: "uint32_t (areaStart + m) = areaStart + m" by (simp add: uint32_t_def)
  have a: "0 < areaStart + m" "areaStart + m < areaEnd" using m by simp_all
  have "\<exists>pool1 block1. markShrunkArea pool block (areaStart + m) areaEnd = Some (pool1, block1)
      \<and> length (b_usedBitVector block1) = ?L
      \<and> length (b_stopBitVector block1) = length (b_stopBitVector block)
      \<and> (\<forall>i. i < ?L * 64 \<longrightarrow>
           bitAt (b_usedBitVector block1) i
             = (bitAt (b_usedBitVector block) i \<and> \<not> (areaStart + m \<le> i \<and> i < areaEnd)))
      \<and> (\<forall>i. bitAt (b_stopBitVector block1) i =
           (if i = areaStart + m - 1 then True else if i = areaEnd - 1 then False
            else bitAt (b_stopBitVector block) i))"
    by (rule markShrunkArea_result[OF a e len(1), of pool]) blast
  then obtain pool1 block1
    where mk: "markShrunkArea pool block (areaStart + m) areaEnd = Some (pool1, block1)"
      and l1: "length (b_usedBitVector block1) = ?L"
              "length (b_stopBitVector block1) = length (b_stopBitVector block)"
      and u1: "\<And>i. i < ?L * 64 \<Longrightarrow>
           bitAt (b_usedBitVector block1) i
             = (bitAt (b_usedBitVector block) i \<and> \<not> (areaStart + m \<le> i \<and> i < areaEnd))"
      and s1: "\<And>i. bitAt (b_stopBitVector block1) i =
           (if i = areaStart + m - 1 then True else if i = areaEnd - 1 then False
            else bitAt (b_stopBitVector block) i)"
    by blast
  note f = markShrunkArea_fields[OF mk]
  define pool2 where "pool2 = pool1\<lparr>p_blocks := (p_blocks pool1)[k := block1]\<rparr>"
  define impl' where "impl' = impl\<lparr>i_pools := (i_pools impl)[poolId := pool2]\<rparr>"
  have sh: "shrink (Some impl) rx newSize = Some (kErrorOk, Some impl')"
    using rx nz t gb stop prev am diff sm mk m(2,3) a
    by (simp add: shrink_def Let_def pool[symmetric] block[symmetric] st(1)[symmetric]
          impl'_def pool2_def)
  \<comment> \<open>the state after \<open>shrink\<close>\<close>
  have p2: "i_pools impl' ! poolId = pool2" using v by (simp add: impl'_def)
  have b2: "p_blocks pool2 ! k = block1" using v by (simp add: pool2_def f(1))
  have pb: "p_blocks pool2 = (p_blocks (i_pools impl ! poolId))[k := block1]"
    by (simp add: pool2_def f(1) pool)
  have t': "tree_get impl' rx = Some (poolId, k)"
  proof -
    have "tree_get impl' rx = tree_get impl rx"
    proof (rule tree_get_block_update)
      show "b_rx block1 = b_rx (p_blocks (i_pools impl ! poolId) ! k)"
        using f(3) by (simp add: pool block)
      show "b_blockSize block1 = b_blockSize (p_blocks (i_pools impl ! poolId) ! k)"
        using f(5) by (simp add: pool block)
      show "p_blocks pool2 = (p_blocks (i_pools impl ! poolId))[k := block1]" by (rule pb)
      show "i_pools impl' = (i_pools impl)[poolId := pool2]" by (simp add: impl'_def)
    qed
    with t show ?thesis by simp
  qed
  have gr: "p_granularity pool2 = p_granularity pool" "p_granularityLog2 pool2 = p_granularityLog2 pool"
    by (simp_all add: pool2_def f(1))
  have ai: "areaIndexOf pool2 block1 rx = areaStart"
    by (simp add: areaIndexOf_def gr f(3) st(1))
  have "bitAt (b_usedBitVector block1) areaStart"
    using u1[of areaStart] s used m by simp
  moreover from s(1,2) l1 have "areaStart div 64 < length (b_usedBitVector block1)"
    by (simp add: less_mult_imp_div_less)
  ultimately have gb': "bitVectorGetBit (b_usedBitVector block1) areaStart = Some True"
    by (simp add: bitVectorGetBit_def)
  have "bitVectorIndexOf (b_stopBitVector block1) areaStart True = Some (areaStart + m - 1)"
  proof (rule bitVectorIndexOf_first)
    show "areaStart \<le> areaStart + m - 1" using m by simp
    show "areaStart + m - 1 < length (b_stopBitVector block1) * 64"
      using ms s(2) l1 len by simp
    show "bitAt (b_stopBitVector block1) (areaStart + m - 1) = True" by (simp add: s1)
    fix i assume i: "areaStart \<le> i" "i < areaStart + m - 1"
    with ms ae' have "i \<noteq> areaEnd - 1" "i < s" by simp_all
    with i free[of i] show "bitAt (b_stopBitVector block1) i \<noteq> True" by (simp add: s1)
  qed
  moreover from ms s(2) len(2) m have "uint32_t (uint32_t (areaStart + m - 1) + 1) = areaStart + m"
    by (simp add: uint32_t_def)
  ultimately have ae2: "areaEndOf block1 areaStart = Some (areaStart + m)"
    by (simp add: areaEndOf_def)
  from m e have sz: "uint32_sub (areaStart + m) areaStart = m"
    using uint32_sub_eq[of areaStart "areaStart + m"] by simp
  from m(3) e(2) g(2) have "m * p_granularity pool < 2 ^ 32 * 2 ^ 16"
    by (intro mult_strict_mono) simp_all
  then have bs: "byteSizeFromAreaSize pool2 m = m * p_granularity pool"
    by (simp add: byteSizeFromAreaSize_def gr size_t_def)
  have bo: "byteSizeFromAreaSize pool2 areaStart = byteSizeFromAreaSize pool areaStart"
    by (simp add: byteSizeFromAreaSize_def gr)
  have q: "query (Some impl') rx outs
               = Some (kErrorOk, (b_rx block + byteSizeFromAreaSize pool areaStart,
                                  b_rw block + byteSizeFromAreaSize pool areaStart,
                                  m * p_granularity pool))"
    using t' gb' ae2
    by (simp add: query_def Let_def p2 b2 ai sz bs bo f(3) f(4))
  from sh l1(1) u1 s1 q show ?thesis
    by (intro exI[of _ impl']) (simp add: p2 b2)
qed

section \<open>Well-formed allocators\<close>

text \<open>
  Invariants of the reachable states: the granularity of a pool is a power of two
  below \<open>2 ^ 16\<close> whose logarithm the pool stores, and the two bit vectors of a block
  have the same length, of less than \<open>2 ^ 32\<close> bits.
\<close>

definition block_wf :: "JitAllocatorBlock \<Rightarrow> bool" where
  "block_wf b =
     (length (b_stopBitVector b) = length (b_usedBitVector b)
      \<and> length (b_usedBitVector b) * 64 < 2 ^ 32)"

definition pool_wf :: "JitAllocatorPool \<Rightarrow> bool" where
  "pool_wf pool =
     (p_granularity pool = 2 ^ p_granularityLog2 pool \<and> p_granularity pool < 2 ^ 16
      \<and> (\<forall>b \<in> set (p_blocks pool). block_wf b))"

definition impl_wf :: "JitAllocatorPrivateImpl \<Rightarrow> bool" where
  "impl_wf impl = (i_pools impl \<noteq> [] \<and> (\<forall>pool \<in> set (i_pools impl). pool_wf pool))"

definition allocator_wf :: "JitAllocator \<Rightarrow> bool" where
  "allocator_wf a = (case a of None \<Rightarrow> True | Some impl \<Rightarrow> impl_wf impl)"

lemma bitVectorFill_length: "bitVectorFill buf i c = Some buf' \<Longrightarrow> length buf' = length buf"
  by (auto simp: bitVectorFill_def split: if_splits)

lemma memsetZero_length: "memsetZero buf n = Some buf' \<Longrightarrow> length buf' = length buf"
  by (auto simp: memsetZero_def split: if_splits)

lemma block_wf_vectors:
  "b_usedBitVector b' = b_usedBitVector b \<Longrightarrow> b_stopBitVector b' = b_stopBitVector b \<Longrightarrow>
     block_wf b \<Longrightarrow> block_wf b'"
  by (simp add: block_wf_def)

lemma block_wf_lengths:
  "length (b_usedBitVector b') = length (b_usedBitVector b) \<Longrightarrow>
   length (b_stopBitVector b') = length (b_stopBitVector b) \<Longrightarrow> block_wf b \<Longrightarrow> block_wf b'"
  by (simp add: block_wf_def)

lemma markAllocatedArea_wf:
  assumes "markAllocatedArea pool b s e = Some (pool', b')" and "block_wf b"
  shows "block_wf b'"
proof -
  from assms(1) obtain used stop
    where u: "bitVectorFill (b_usedBitVector b) s (uint32_sub e s) = Some used"
      and t: "bitVectorSetBit (b_stopBitVector b) (uint32_sub e 1) True = Some stop"
      and b: "b_usedBitVector b' = used" "b_stopBitVector b' = stop"
    by (auto simp: markAllocatedArea_def Let_def split: Option.bind_splits if_splits)
  from bitVectorFill_length[OF u] bitVectorSetBit_bits(1)[OF t] b assms(2)
  show ?thesis by (simp add: block_wf_def)
qed

lemma markReleasedArea_wf:
  assumes "markReleasedArea pool b s e = Some (pool', b')" and "block_wf b"
  shows "block_wf b'"
proof -
  from assms(1) obtain used stop
    where u: "bitVectorClear (b_usedBitVector b) s (uint32_sub e s) = Some used"
      and t: "bitVectorSetBit (b_stopBitVector b) (uint32_sub e 1) False = Some stop"
      and b: "b_usedBitVector b' = used" "b_stopBitVector b' = stop"
    by (auto simp: markReleasedArea_def Let_def split: Option.bind_splits if_splits)
  from bitVectorClear_bits(1)[OF u] bitVectorSetBit_bits(1)[OF t] b assms(2)
  show ?thesis by (simp add: block_wf_def)
qed

lemma markShrunkArea_wf:
  assumes "markShrunkArea pool b s e = Some (pool', b')" and "block_wf b"
  shows "block_wf b'"
proof -
  from assms(1) obtain used stop0 stop
    where u: "bitVectorClear (b_usedBitVector b) s (uint32_sub e s) = Some used"
      and t0: "bitVectorSetBit (b_stopBitVector b) (uint32_sub e 1) False = Some stop0"
      and t: "bitVectorSetBit stop0 (uint32_sub s 1) True = Some stop"
      and b: "b_usedBitVector b' = used" "b_stopBitVector b' = stop"
    by (auto simp: markShrunkArea_def Let_def split: Option.bind_splits if_splits)
  from bitVectorClear_bits(1)[OF u] bitVectorSetBit_bits(1)[OF t0] bitVectorSetBit_bits(1)[OF t]
    b assms(2)
  show ?thesis by (simp add: block_wf_def)
qed

lemma clearBlock_wf:
  assumes "clearBlock b = Some b'" and "block_wf b"
  shows "block_wf b'"
proof -
  from assms(1) obtain used0 stop0 used1 stop1
    where m: "memsetZero (b_usedBitVector b) (bitWordCountFromAreaSize (b_areaSize b)) = Some used0"
             "memsetZero (b_stopBitVector b) (bitWordCountFromAreaSize (b_areaSize b)) = Some stop0"
      and s: "bitVectorSetBit used0 0 (hasInitialPadding b) = Some used1"
             "bitVectorSetBit stop0 0 (hasInitialPadding b) = Some stop1"
      and b: "b_usedBitVector b' = used1" "b_stopBitVector b' = stop1"
    by (auto simp: clearBlock_def Let_def split: Option.bind_splits)
  from memsetZero_length[OF m(1)] memsetZero_length[OF m(2)]
    bitVectorSetBit_bits(1)[OF s(1)] bitVectorSetBit_bits(1)[OF s(2)] b assms(2)
  show ?thesis by (simp add: block_wf_def)
qed

lemma newBlock_wf:
  assumes "JitAllocatorImpl_newBlock impl pool poolId blockSize vm = Some (Inr b)"
  shows "block_wf b"
proof -
  define areaSize where
    "areaSize = uint32_t (size_t (blockSize + p_granularity pool - 1) div 2 ^ p_granularityLog2 pool)"
  define n where "n = uint32_t (areaSize + kBitWordSizeInBits - 1) div kBitWordSizeInBits"
  from assms obtain b0 where c: "clearBlock b0 = Some b"
    and v: "b_usedBitVector b0 = replicate n 0" "b_stopBitVector b0 = replicate n 0"
    unfolding JitAllocatorImpl_newBlock_def Let_def areaSize_def[symmetric] n_def[symmetric]
    by (auto split: if_splits option.splits)
  have "n * 64 \<le> uint32_t (areaSize + kBitWordSizeInBits - 1)"
    by (simp add: n_def kBitWordSizeInBits_def)
  also have "\<dots> < 2 ^ 32" by (simp add: uint32_t_def)
  finally have "block_wf b0" using v by (simp add: block_wf_def)
  with c show ?thesis by (rule clearBlock_wf)
qed

lemma pool_wf_update:
  assumes "pool_wf pool" and "block_wf b'" and "p_blocks pool' = (p_blocks pool)[k := b']"
    and "p_granularity pool' = p_granularity pool"
    and "p_granularityLog2 pool' = p_granularityLog2 pool"
  shows "pool_wf pool'"
  using assms by (auto simp: pool_wf_def dest: set_update_cases)

lemma pool_wf_subset:
  assumes "pool_wf pool" and "set (p_blocks pool') \<subseteq> set (p_blocks pool)"
    and "p_granularity pool' = p_granularity pool"
    and "p_granularityLog2 pool' = p_granularityLog2 pool"
  shows "pool_wf pool'"
  using assms by (auto simp: pool_wf_def)

lemma pool_wf_nth: "pool_wf pool \<Longrightarrow> k < length (p_blocks pool) \<Longrightarrow> block_wf (p_blocks pool ! k)"
  by (simp add: pool_wf_def)

lemma impl_wf_update:
  assumes "impl_wf impl" and "pool_wf pool'" and "i_pools impl' = (i_pools impl)[poolId := pool']"
  shows "impl_wf impl'"
  using assms by (auto simp: impl_wf_def dest: set_update_cases)

lemma pool_wf_same:
  assumes "pool_wf pool" and "list_all2 same_but_hints (p_blocks pool) blocks1"
  shows "pool_wf (pool\<lparr>p_blocks := blocks1\<rparr>)"
proof -
  have "block_wf b'" if "b' \<in> set blocks1" for b'
  proof -
    from that obtain i where i: "i < length blocks1" "blocks1 ! i = b'"
      by (auto simp: in_set_conv_nth)
    from assms(2) have len: "length blocks1 = length (p_blocks pool)" by (simp add: list_all2_lengthD)
    with i have k: "i < length (p_blocks pool)" by simp
    from list_all2_nthD[OF assms(2) k] i have s: "same_but_hints (p_blocks pool ! i) b'" by simp
    from same_but_hints_fields(7)[OF s] same_but_hints_fields(8)[OF s] pool_wf_nth[OF assms(1) k]
    show ?thesis by (rule block_wf_vectors)
  qed
  with assms(1) show ?thesis by (simp add: pool_wf_def)
qed

lemma alloc_finish_wf:
  assumes r: "alloc_finish impl poolId pool k areaIndex areaSize size' = Some (err, outs, Some impl')"
    and ok: "impl_wf impl" and k: "k < length (p_blocks pool)" and pk: "pool_wf pool"
  shows "impl_wf impl'"
  using r
proof (rule alloc_finish_shape)
  fix pool' block'
  assume m: "markAllocatedArea pool (p_blocks pool ! k) areaIndex (uint32_t (areaIndex + areaSize)) = Some (pool', block')"
    and a: "Some impl' = Some (impl\<lparr>i_allocationCount := size_t (i_allocationCount impl + 1),
                      i_pools := (i_pools impl)[poolId := pool'\<lparr>p_blocks := (p_blocks pool')[k := block']\<rparr>]\<rparr>)"
  define pool'' where "pool'' = pool'\<lparr>p_blocks := (p_blocks pool')[k := block']\<rparr>"
  note f = markAllocatedArea_fields[OF m]
  from markAllocatedArea_wf[OF m pool_wf_nth[OF pk k]] have "block_wf block'" .
  with pk have "pool_wf pool''"
    by (rule pool_wf_update) (simp_all add: pool''_def f(1))
  moreover from a have "i_pools impl' = (i_pools impl)[poolId := pool'']"
    by (simp add: pool''_def)
  ultimately show ?thesis using ok impl_wf_update by blast
qed

lemma alloc_found_wf:
  assumes r: "alloc_found impl poolId pool k areaIndex areaSize size' = Some (err, outs, Some impl')"
    and ok: "impl_wf impl" and k: "k < length (p_blocks pool)" and pk: "pool_wf pool"
  shows "impl_wf impl'"
proof -
  define b where "b = p_blocks pool ! k"
  define pool2 where "pool2 =
     (if hasFlag b kFlagEmpty
      then pool\<lparr>p_emptyBlockCount := uint8_sub (p_emptyBlockCount pool) 1,
                p_blocks := (p_blocks pool)[k := b\<lparr>b_flags := b_flags b - {kFlagEmpty}\<rparr>]\<rparr>
      else pool)"
  from r have r2: "alloc_finish impl poolId pool2 k areaIndex areaSize size' = Some (err, outs, Some impl')"
    by (cases "hasFlag b kFlagEmpty") (simp_all add: alloc_found_def Let_def pool2_def b_def)
  have k2: "k < length (p_blocks pool2)" using k by (simp add: pool2_def)
  have "block_wf (b\<lparr>b_flags := b_flags b - {kFlagEmpty}\<rparr>)"
    using pool_wf_nth[OF pk k] by (simp add: b_def block_wf_def)
  with pk have "pool_wf (pool\<lparr>p_emptyBlockCount := uint8_sub (p_emptyBlockCount pool) 1,
                p_blocks := (p_blocks pool)[k := b\<lparr>b_flags := b_flags b - {kFlagEmpty}\<rparr>]\<rparr>)"
    by (rule pool_wf_update) simp_all
  with pk have "pool_wf pool2" by (simp add: pool2_def)
  from alloc_finish_wf[OF r2 ok k2 this] show ?thesis .
qed

lemma alloc_newBlock_wf:
  assumes r: "alloc_newBlock impl vm poolId pool areaSize size' = Some (err, outs, Some impl')"
    and ok: "impl_wf impl" and pk: "pool_wf pool"
  shows "impl_wf impl'"
  using r
proof (cases rule: alloc_newBlock_shape)
  case overflow
  then have "i_pools impl' = (i_pools impl)[poolId := pool]" by simp
  with ok pk show ?thesis by (rule impl_wf_update)
next
  case (vmError e)
  then have "i_pools impl' = (i_pools impl)[poolId := pool]" by simp
  with ok pk show ?thesis by (rule impl_wf_update)
next
  case (created block0)
  define block1 where "block1 = block0\<lparr>b_searchStart := uint32_t (b_searchStart block0 + areaSize),
                          b_largestUnusedArea := uint32_sub (b_largestUnusedArea block0) areaSize\<rparr>"
  define pool3 where "pool3 = (JitAllocatorImpl_insertBlock pool block0)\<lparr>p_blocks := p_blocks pool @ [block1]\<rparr>"
  from created(3) have r2: "alloc_finish impl poolId pool3 (length (p_blocks pool))
                              (initialAreaStart block0) areaSize size' = Some (err, outs, Some impl')"
    by (simp add: pool3_def block1_def)
  have pb: "p_blocks pool3 = p_blocks pool @ [block1]"
    "p_granularity pool3 = p_granularity pool" "p_granularityLog2 pool3 = p_granularityLog2 pool"
    by (simp_all add: pool3_def JitAllocatorImpl_insertBlock_def)
  have k3: "length (p_blocks pool) < length (p_blocks pool3)" by (simp add: pb)
  from newBlock_wf[OF created(2)] have "block_wf block1" by (simp add: block1_def block_wf_def)
  with pk have "pool_wf pool3" by (auto simp: pool_wf_def pb)
  from alloc_finish_wf[OF r2 ok k3 this] show ?thesis .
qed

lemma alloc_locked_wf:
  assumes r: "alloc_locked impl vm size' = Some (err, outs, Some impl')" and ok: "impl_wf impl"
  shows "impl_wf impl'"
proof -
  let ?poolId = "JitAllocatorImpl_sizeToPoolId impl size'"
  let ?pool = "i_pools impl ! ?poolId"
  let ?areaSize = "areaSizeFromByteSize ?pool size'"
  from ok have "?poolId < length (i_pools impl)" by (simp add: impl_wf_def sizeToPoolId_valid)
  then have "?pool \<in> set (i_pools impl)" by simp
  with ok have pk: "pool_wf ?pool" by (simp add: impl_wf_def)
  from r obtain found blocks1 where s: "alloc_search ?areaSize (p_blocks ?pool) = Some (found, blocks1)"
    by (auto simp: alloc_locked_def Let_def split: option.splits)
  from pool_wf_same[OF pk alloc_search_same[OF s]]
  have pk1: "pool_wf (?pool\<lparr>p_blocks := blocks1\<rparr>)" .
  show ?thesis
  proof (cases found)
    case None
    with r s have "alloc_newBlock impl vm ?poolId (?pool\<lparr>p_blocks := blocks1\<rparr>) ?areaSize size'
                     = Some (err, outs, Some impl')"
      by (simp add: alloc_locked_def Let_def)
    from alloc_newBlock_wf[OF this ok pk1] show ?thesis .
  next
    case (Some ka)
    obtain k areaIndex where ka: "ka = (k, areaIndex)" by (cases ka)
    with Some r s have f: "alloc_found impl ?poolId (?pool\<lparr>p_blocks := blocks1\<rparr>) k areaIndex ?areaSize size'
                     = Some (err, outs, Some impl')"
      by (simp add: alloc_locked_def Let_def)
    from s Some ka alloc_search_found[of ?areaSize "p_blocks ?pool" k areaIndex blocks1]
         alloc_search_length[OF s]
    have "k < length (p_blocks (?pool\<lparr>p_blocks := blocks1\<rparr>))" by simp
    from alloc_found_wf[OF f ok this pk1] show ?thesis .
  qed
qed

lemma alloc_wf:
  assumes "alloc (Some impl) vm outs n = Some (err, outs', Some impl')" and "impl_wf impl"
  shows "impl_wf impl'"
  using assms
  by (auto simp: alloc_def Let_def split: if_splits dest: alloc_locked_wf)

lemma release_wf:
  assumes r: "release (Some impl) rxPtr = Some (err, Some impl')" and ok: "impl_wf impl"
  shows "impl_wf impl'"
  using r
proof (cases rule: release_shape)
  case null
  with ok show ?thesis by simp
next
  case unknown
  with ok show ?thesis by simp
next
  case (released poolId k areaEnd pool1 block1)
  define pool where "pool = i_pools impl ! poolId"
  define pool2 where "pool2 = pool1\<lparr>p_blocks := (p_blocks pool1)[k := block1]\<rparr>"
  from tree_get_valid[OF released(2)]
  have v: "poolId < length (i_pools impl)" "k < length (p_blocks pool)" by (simp_all add: pool_def)
  then have "pool \<in> set (i_pools impl)" by (simp add: pool_def)
  with ok have pk: "pool_wf pool" by (simp add: impl_wf_def)
  note m = released(4)[folded pool_def]
  note f = markReleasedArea_fields[OF m]
  from markReleasedArea_wf[OF m pool_wf_nth[OF pk v(2)]] have "block_wf block1" .
  with pk have pk2: "pool_wf pool2"
    by (rule pool_wf_update) (simp_all add: pool2_def f(1))
  define pool3 where "pool3 =
     (if empty_block block1 then
        if p_emptyBlockCount pool1 \<noteq> 0 \<or> kImmediateRelease \<in> i_options impl
        then JitAllocatorImpl_removeBlock pool2 k
        else pool2\<lparr>p_emptyBlockCount := uint8_t (p_emptyBlockCount pool1 + 1)\<rparr>
      else pool2)"
  have rb: "p_blocks (JitAllocatorImpl_removeBlock pool2 k)
              = take k (p_blocks pool2) @ drop (Suc k) (p_blocks pool2)"
    "p_granularity (JitAllocatorImpl_removeBlock pool2 k) = p_granularity pool2"
    "p_granularityLog2 (JitAllocatorImpl_removeBlock pool2 k) = p_granularityLog2 pool2"
    by (simp_all add: JitAllocatorImpl_removeBlock_def Let_def)
  have "set (p_blocks (JitAllocatorImpl_removeBlock pool2 k)) \<subseteq> set (p_blocks pool2)"
    unfolding rb by (rule set_remove_subset)
  then have "set (p_blocks pool3) \<subseteq> set (p_blocks pool2)"
    by (simp add: pool3_def)
  with pk2 have "pool_wf pool3"
    by (rule pool_wf_subset) (simp_all add: pool3_def rb)
  moreover from released(6) have "i_pools impl' = (i_pools impl)[poolId := pool3]"
    by (simp add: pool3_def pool2_def)
  ultimately show ?thesis using ok impl_wf_update by blast
qed

lemma shrink_wf:
  assumes r: "shrink (Some impl) rxPtr newSize = Some (err, Some impl')" and ok: "impl_wf impl"
  shows "impl_wf impl'"
proof (cases "newSize = 0")
  case True
  show ?thesis
  proof (cases "rxPtr = 0")
    case True
    with r ok show ?thesis by (simp add: shrink_def)
  next
    case False
    with r \<open>newSize = 0\<close> have "release (Some impl) rxPtr = Some (err, Some impl')"
      by (simp add: shrink_def)
    from release_wf[OF this ok] show ?thesis .
  qed
next
  case False
  from r False show ?thesis
  proof (cases rule: shrink_shape)
    case failed
    with ok show ?thesis by simp
  next
    case same
    with ok show ?thesis by simp
  next
    case (shrunk poolId k s e pool1 block1)
    define pool where "pool = i_pools impl ! poolId"
    from tree_get_valid[OF shrunk(1)]
    have v: "poolId < length (i_pools impl)" "k < length (p_blocks pool)" by (simp_all add: pool_def)
    then have "pool \<in> set (i_pools impl)" by (simp add: pool_def)
    with ok have pk: "pool_wf pool" by (simp add: impl_wf_def)
    note m = shrunk(2)[folded pool_def]
    note f = markShrunkArea_fields[OF m]
    from markShrunkArea_wf[OF m pool_wf_nth[OF pk v(2)]] have "block_wf block1" .
    with pk have "pool_wf (pool1\<lparr>p_blocks := (p_blocks pool1)[k := block1]\<rparr>)"
      by (rule pool_wf_update) (simp_all add: f(1))
    moreover from shrunk(4)
    have "i_pools impl' = (i_pools impl)[poolId := pool1\<lparr>p_blocks := (p_blocks pool1)[k := block1]\<rparr>]"
      by simp
    ultimately show ?thesis using ok impl_wf_update by blast
  qed
qed

lemma reset_pool_wf:
  assumes "reset_pool impl policy pool = Some pool'" and "pool_wf pool"
  shows "pool_wf pool'"
proof (cases "policy \<noteq> kHard \<and> kImmediateRelease \<notin> i_options impl")
  case False
  with assms show ?thesis by (auto simp: reset_pool_def pool_reset_def pool_wf_def)
next
  case True
  with assms(1) obtain b0 others b where bl: "p_blocks pool = b0 # others"
    and w: "JitAllocatorImpl_wipeOutBlock b0 = Some b"
    and p: "pool' = (JitAllocatorImpl_insertBlock (pool_reset pool) b)\<lparr>p_emptyBlockCount := 1\<rparr>"
    by (auto simp: reset_pool_def split: list.splits option.splits)
  from assms(2) bl have "block_wf b0" by (simp add: pool_wf_def)
  with w have "block_wf b"
    by (auto simp: JitAllocatorImpl_wipeOutBlock_def split: if_splits dest: clearBlock_wf)
  with assms(2) show ?thesis
    by (simp add: p pool_wf_def JitAllocatorImpl_insertBlock_def pool_reset_def)
qed

lemma reset_pools_wf:
  "reset_pools impl policy pools = Some pools' \<Longrightarrow> \<forall>pool \<in> set pools. pool_wf pool \<Longrightarrow>
     length pools' = length pools \<and> (\<forall>pool \<in> set pools'. pool_wf pool)"
proof (induction pools arbitrary: pools')
  case Nil
  then show ?case by simp
next
  case (Cons pool pools)
  from Cons.prems(1) obtain p' ps' where p: "reset_pool impl policy pool = Some p'"
    and ps: "reset_pools impl policy pools = Some ps'" and e: "pools' = p' # ps'"
    by (auto split: option.splits)
  from reset_pool_wf[OF p] Cons.prems(2) have "pool_wf p'" by simp
  moreover from Cons.IH[OF ps] Cons.prems(2)
  have "length ps' = length pools \<and> (\<forall>pool \<in> set ps'. pool_wf pool)" by simp
  ultimately show ?case using e by simp
qed

lemma reset_wf:
  assumes "reset (Some impl) policy = Some (Some impl')" and "impl_wf impl"
  shows "impl_wf impl'"
proof -
  from assms(1) obtain pools where r: "reset_pools impl policy (i_pools impl) = Some pools"
    and i: "impl' = impl\<lparr>i_pools := pools\<rparr>"
    by (auto simp: reset_def split: option.splits)
  from reset_pools_wf[OF r] assms(2)
  have "length pools = length (i_pools impl)" "\<forall>pool \<in> set pools. pool_wf pool"
    by (simp_all add: impl_wf_def)
  with assms(2) i show ?thesis by (auto simp: impl_wf_def)
qed

lemma step_wf:
  assumes "step a op = Some a'" and "allocator_wf a"
  shows "allocator_wf a'"
proof (cases a)
  case None
  with assms(1) have "a' = None"
    by (cases op) (auto simp: alloc_def release_def shrink_def query_def reset_def)
  then show ?thesis by (simp add: allocator_wf_def)
next
  case (Some impl)
  with assms(2) have ok: "impl_wf impl" by (simp add: allocator_wf_def)
  show ?thesis
  proof (cases op)
    case (OpAlloc vm n)
    with assms(1) Some obtain err outs where r: "alloc (Some impl) vm (0, 0) n = Some (err, outs, a')"
      by auto
    from alloc_keeps_initialized[OF r] obtain impl' where a': "a' = Some impl'" by auto
    from alloc_wf[OF r[unfolded a'] ok] a' show ?thesis by (simp add: allocator_wf_def)
  next
    case (OpRelease p)
    with assms(1) Some obtain err where r: "release (Some impl) p = Some (err, a')" by auto
    then obtain impl' where a': "a' = Some impl'" by (cases rule: release_shape) auto
    from release_wf[OF r[unfolded a'] ok] a' show ?thesis by (simp add: allocator_wf_def)
  next
    case (OpShrink p n)
    with assms(1) Some obtain err where r: "shrink (Some impl) p n = Some (err, a')" by auto
    have "\<exists>impl'. a' = Some impl'"
    proof (cases "n = 0")
      case True
      show ?thesis
      proof (cases "p = 0")
        case True
        with r show ?thesis by (auto simp: shrink_def)
      next
        case False
        with r \<open>n = 0\<close> have "release (Some impl) p = Some (err, a')" by (simp add: shrink_def)
        then show ?thesis by (cases rule: release_shape) auto
      qed
    next
      case False
      with r show ?thesis by (cases rule: shrink_shape) auto
    qed
    then obtain impl' where a': "a' = Some impl'" by auto
    from shrink_wf[OF r[unfolded a'] ok] a' show ?thesis by (simp add: allocator_wf_def)
  next
    case (OpQuery p)
    with assms Some show ?thesis by auto
  next
    case (OpReset policy)
    with assms(1) Some have r: "reset (Some impl) policy = Some a'" by simp
    then obtain impl' where a': "a' = Some impl'" by (auto simp: reset_def split: option.splits)
    from reset_wf[OF r[unfolded a'] ok] a' show ?thesis by (simp add: allocator_wf_def)
  qed
qed

lemma run_wf:
  "run a ops = Some a' \<Longrightarrow> allocator_wf a \<Longrightarrow> allocator_wf a'"
proof (induction ops arbitrary: a)
  case Nil
  then show ?case by simp
next
  case (Cons op ops)
  from Cons.prems(1) obtain a1 where s: "step a op = Some a1" and r: "run a1 ops = Some a'"
    by (auto split: option.splits)
  from step_wf[OF s Cons.prems(2)] have "allocator_wf a1" .
  from Cons.IH[OF r this] show ?case .
qed

text \<open>The pools of a new allocator are well-formed.\<close>

lemma ctz_power: "k < 32 \<Longrightarrow> ctz (of_nat (2 ^ k) :: 32 word) = k"
proof -
  assume k: "k < 32"
  have e: "(of_nat (2 ^ k) :: 32 word) = 2 ^ k" by simp
  show ?thesis unfolding e
  proof (rule ctz_eqI)
    show "bit (2 ^ k :: 32 word) k" using k by (simp add: bit_simps)
  next
    fix n assume "n < k"
    then show "\<not> bit (2 ^ k :: 32 word) n" by (simp add: bit_simps)
  qed
qed

lemma pool_new_wf: "k \<le> 10 \<Longrightarrow> pool_wf (JitAllocatorPool_new (2 ^ k))"
proof -
  assume k: "k \<le> 10"
  then have "(2 :: nat) ^ k \<le> 2 ^ 10" by (intro power_increasing) simp_all
  then have lt: "(2 :: nat) ^ k < 2 ^ 16" by simp
  from k have "ctz (of_nat (2 ^ k) :: 32 word) = k" by (intro ctz_power) simp
  moreover from k have "uint8_t k = k" by (simp add: uint8_t_def)
  ultimately show ?thesis using lt
    by (simp add: pool_wf_def JitAllocatorPool_new_def)
qed

lemma new_wf:
  assumes "JitAllocatorImpl_new plat params = Some impl"
  shows "impl_wf impl"
proof -
  define P where "P = (case params of None \<Rightarrow> JitAllocatorParams_none | Some p \<Rightarrow> p)"
  define n where "n = (if kUseMultiplePools \<in> cp_options P then kJitAllocatorMultiPoolCount else 1)"
  define g where "g = (if cp_granularity P < 64 \<or> 256 < cp_granularity P \<or> \<not> isPowerOf2 (cp_granularity P)
                       then kJitAllocatorBaseGranularity else cp_granularity P)"
  from assms have ok: "malloc_impl_ok plat"
    by (cases "malloc_impl_ok plat") (simp_all add: JitAllocatorImpl_new_def Let_def)
  with assms
  have p: "i_pools impl = map (\<lambda>poolId. JitAllocatorPool_new (uint32_t (g * 2 ^ poolId))) [0..<n]"
    unfolding JitAllocatorImpl_new_def Let_def P_def[symmetric] n_def[symmetric] g_def[symmetric]
    by (auto split del: if_split)
  have n: "0 < n" "n \<le> 3" by (simp_all add: n_def kJitAllocatorMultiPoolCount_def)
  have "\<exists>j. g = 2 ^ j \<and> j \<le> 8"
  proof (cases "cp_granularity P < 64 \<or> 256 < cp_granularity P \<or> \<not> isPowerOf2 (cp_granularity P)")
    case True
    then have "g = 2 ^ 6" by (simp add: g_def kJitAllocatorBaseGranularity_def)
    then show ?thesis by (intro exI[of _ 6]) simp
  next
    case False
    then have gg: "g = cp_granularity P" "isPowerOf2 g" "g \<le> 256" by (simp_all add: g_def)
    from isPowerOf2_power[OF gg(2)] obtain j where j: "g = 2 ^ j" by blast
    with gg(3) have "(2 :: nat) ^ j \<le> 2 ^ 8" by simp
    then have "j \<le> 8" by (rule power_le_imp_le_exp[rotated]) simp
    with j show ?thesis by blast
  qed
  then obtain j where j: "g = 2 ^ j" "j \<le> 8" by blast
  have "pool_wf (JitAllocatorPool_new (uint32_t (g * 2 ^ poolId)))" if "poolId < n" for poolId
  proof -
    from that n j have le: "j + poolId \<le> 10" by simp
    then have "(2 :: nat) ^ (j + poolId) \<le> 2 ^ 10" by (intro power_increasing) simp_all
    then have "(2 :: nat) ^ (j + poolId) < 2 ^ 32" by simp
    then have "uint32_t (g * 2 ^ poolId) = 2 ^ (j + poolId)"
      by (simp add: j(1) power_add uint32_t_def)
    with pool_new_wf[OF le] show ?thesis by simp
  qed
  with p n show ?thesis by (auto simp: impl_wf_def)
qed

lemma reachable_wf:
  assumes "run (JitAllocator_new plat params) ops = Some (Some impl)"
  shows "impl_wf impl"
proof -
  have "allocator_wf (JitAllocator_new plat params)"
    by (cases "JitAllocatorImpl_new plat params")
       (simp_all add: allocator_wf_def JitAllocator_new_def new_wf)
  from run_wf[OF assms this] show ?thesis by (simp add: allocator_wf_def)
qed

lemma tree_get_range:
  assumes "tree_get impl p = Some (poolId, k)"
  shows "b_rx (p_blocks (i_pools impl ! poolId) ! k) \<le> p"
    and "p < b_rx (p_blocks (i_pools impl ! poolId) ! k) + b_blockSize (p_blocks (i_pools impl ! poolId) ! k)"
proof -
  from assms obtain i where "i < length (tree_blocks impl)"
    and h: "\<not> block_lt_key (block_at impl (tree_blocks impl ! i)) p
            \<and> \<not> block_gt_key (block_at impl (tree_blocks impl ! i)) p"
    and e: "(poolId, k) = tree_blocks impl ! i"
    unfolding tree_get_def find_Some_iff by blast
  from h show "b_rx (p_blocks (i_pools impl ! poolId) ! k) \<le> p"
    and "p < b_rx (p_blocks (i_pools impl ! poolId) ! k) + b_blockSize (p_blocks (i_pools impl ! poolId) ! k)"
    unfolding e[symmetric] by (simp_all add: block_at_def block_lt_key_def block_gt_key_def)
qed

text \<open>
  C8. In a state that a sequence of calls reaches from a new allocator, let \<open>rx\<close>
  point into the \<open>k\<close>-th block of a pool, at the area \<open>areaStart > 0\<close>; let this
  area be used and let the first stop bit from \<open>areaStart\<close> on be the bit
  \<open>areaEnd - 1\<close>: a live allocation occupying the areas \<open>[areaStart, areaEnd)\<close>. For a
  new size of \<open>m\<close> areas, \<open>m\<close> being the new size divided by the granularity of the pool
  and rounded up, with \<open>0 < m < areaEnd - areaStart\<close>, \<open>shrink\<close> returns \<open>kErrorOk\<close>; in
  the block of the state it returns, the used bits are those of before without the bits
  \<open>[areaStart + m, areaEnd)\<close>, and the stop bits are those of before with bit
  \<open>areaEnd - 1\<close> cleared and bit \<open>areaStart + m - 1\<close> set; and \<open>query\<close> on this state
  returns \<open>kErrorOk\<close> with the size \<open>m\<close> times the granularity.
\<close>

theorem shrink_live_allocation:
  assumes reach: "run (JitAllocator_new plat params) ops = Some (Some impl)"
    and t: "tree_get impl rx = Some (poolId, k)"
    and pool: "pool = i_pools impl ! poolId" and block: "block = p_blocks pool ! k"
    and st: "areaStart = areaIndexOf pool block rx" "0 < areaStart"
    and used: "bitAt (b_usedBitVector block) areaStart"
    and stop: "areaEndOf block areaStart = Some areaEnd"
    and m: "m = (newSize + p_granularity pool - 1) div p_granularity pool" "0 < m"
           "m < areaEnd - areaStart"
  shows "\<exists>impl'. shrink (Some impl) rx newSize = Some (kErrorOk, Some impl')
           \<and> length (b_usedBitVector (p_blocks (i_pools impl' ! poolId) ! k))
               = length (b_usedBitVector block)
           \<and> (\<forall>i < length (b_usedBitVector block) * 64.
                bitAt (b_usedBitVector (p_blocks (i_pools impl' ! poolId) ! k)) i
                  = (bitAt (b_usedBitVector block) i \<and> \<not> (areaStart + m \<le> i \<and> i < areaEnd)))
           \<and> (\<forall>i. bitAt (b_stopBitVector (p_blocks (i_pools impl' ! poolId) ! k)) i
                  = (if i = areaStart + m - 1 then True else if i = areaEnd - 1 then False
                     else bitAt (b_stopBitVector block) i))
           \<and> query (Some impl') rx outs
               = Some (kErrorOk, (b_rx block + byteSizeFromAreaSize pool areaStart,
                                  b_rw block + byteSizeFromAreaSize pool areaStart,
                                  m * p_granularity pool))"
proof -
  have rx: "rx \<noteq> 0"
  proof
    assume z: "rx = 0"
    with tree_get_range(1)[OF t] have "b_rx block = 0" by (simp add: pool block)
    with z st(1) have "areaStart = 0" by (simp add: areaIndexOf_def size_t_sub_def uint32_t_def)
    with st(2) show False by simp
  qed
  from reachable_wf[OF reach] have wf: "impl_wf impl" .
  from tree_get_valid[OF t] have v: "poolId < length (i_pools impl)" "k < length (p_blocks pool)"
    by (simp_all add: pool)
  then have "pool \<in> set (i_pools impl)" by (simp add: pool)
  with wf have pw: "pool_wf pool" by (simp add: impl_wf_def)
  then have g: "p_granularity pool = 2 ^ p_granularityLog2 pool" "p_granularity pool < 2 ^ 16"
    by (simp_all add: pool_wf_def)
  from pool_wf_nth[OF pw v(2)]
  have len: "length (b_stopBitVector block) = length (b_usedBitVector block)"
    "length (b_usedBitVector block) * 64 < 2 ^ 32"
    by (simp_all add: block block_wf_def)
  from t rx pool block g len st used stop m show ?thesis
    by (rule shrink_live_allocation_wf)
qed

text \<open>
  The example allocator after \<open>alloc(1000)\<close>: the allocation occupies the areas
  \<open>[1, 5)\<close> of the first block. It is shrunk to 256 bytes, one area.
\<close>

definition example_impl_1000 :: JitAllocatorPrivateImpl where
  "example_impl_1000 =
     \<lparr>i_options = {}, i_blockSize = 65536, i_granularity = 256,
      i_fillPattern = 3435973836, i_pageSize = 4096, i_allocationCount = 1,
      i_pools =
        [\<lparr>p_blocks =
            [\<lparr>b_pool = 0, b_rx = 1048576, b_rw = 1048576,
              b_blockSize = 131072,
              b_flags = {kFlagInitialPadding, kFlagDirty},
              b_areaSize = 512, b_areaUsed = 5,
              b_largestUnusedArea = 507, b_searchStart = 5,
              b_searchEnd = 512,
              b_usedBitVector = [31, 0, 0, 0, 0, 0, 0, 0],
              b_stopBitVector = [17, 0, 0, 0, 0, 0, 0, 0]\<rparr>],
          p_cursor = Some 1048576, p_blockCount = 1, p_granularity = 256,
          p_granularityLog2 = 8, p_emptyBlockCount = 0,
          p_totalAreaSize = 512, p_totalAreaUsed = 5,
          p_totalOverheadBytes = 232\<rparr>]\<rparr>"

lemma example_alloc_1000:
  "alloc (Some example_impl0) example_vm (7, 7) 1000
     = Some (kErrorOk, (1048832, 1048832), Some example_impl_1000)"
  by (simp add: example_impl0_def example_impl_1000_def example_vm_def eval_defs
           split del: if_split)

lemma example_run_1000:
  "run (JitAllocator_new example_platform (Some example_params)) [OpAlloc example_vm 1000]
     = Some (Some example_impl_1000)"
proof -
  have "step (Some example_impl0) (OpAlloc example_vm 1000) = Some (Some example_impl_1000)"
    by (simp add: example_impl0_def example_impl_1000_def example_vm_def eval_defs
           split del: if_split)
  then show ?thesis by (simp add: example_new del: step.simps)
qed

lemma example_live_allocation:
  "tree_get example_impl_1000 1048832 = Some (0, 0)"
  "areaIndexOf (i_pools example_impl_1000 ! 0) (p_blocks (i_pools example_impl_1000 ! 0) ! 0) 1048832 = 1"
  "bitAt (b_usedBitVector (p_blocks (i_pools example_impl_1000 ! 0) ! 0)) 1"
  "areaEndOf (p_blocks (i_pools example_impl_1000 ! 0) ! 0) 1 = Some 5"
  by (simp_all add: example_impl_1000_def eval_defs split del: if_split)

theorem shrink_live_allocation_witness:
  "run (JitAllocator_new example_platform (Some example_params)) [OpAlloc example_vm 1000]
     = Some (Some example_impl_1000)
   \<and> alloc (Some example_impl0) example_vm (7, 7) 1000
     = Some (kErrorOk, (1048832, 1048832), Some example_impl_1000)
   \<and> tree_get example_impl_1000 1048832 = Some (0, 0)
   \<and> areaIndexOf (i_pools example_impl_1000 ! 0) (p_blocks (i_pools example_impl_1000 ! 0) ! 0) 1048832 = 1
   \<and> bitAt (b_usedBitVector (p_blocks (i_pools example_impl_1000 ! 0) ! 0)) 1
   \<and> areaEndOf (p_blocks (i_pools example_impl_1000 ! 0) ! 0) 1 = Some 5
   \<and> (\<exists>impl'. shrink (Some example_impl_1000) 1048832 256 = Some (kErrorOk, Some impl')
         \<and> (\<forall>i < 512. bitAt (b_usedBitVector (p_blocks (i_pools impl' ! 0) ! 0)) i
                = (bitAt (b_usedBitVector (p_blocks (i_pools example_impl_1000 ! 0) ! 0)) i
                   \<and> \<not> (2 \<le> i \<and> i < 5)))
         \<and> (\<forall>i. bitAt (b_stopBitVector (p_blocks (i_pools impl' ! 0) ! 0)) i
                = (if i = 1 then True else if i = 4 then False
                   else bitAt (b_stopBitVector (p_blocks (i_pools example_impl_1000 ! 0) ! 0)) i))
         \<and> query (Some impl') 1048832 (7, 7, 7) = Some (kErrorOk, (1048832, 1048832, 256)))"
proof -
  define pool where "pool = i_pools example_impl_1000 ! 0"
  define block where "block = p_blocks pool ! 0"
  have st: "1 = areaIndexOf pool block 1048832" "0 < (1 :: nat)"
    using example_live_allocation(2) by (simp_all add: block_def pool_def)
  have used: "bitAt (b_usedBitVector block) 1"
    using example_live_allocation(3) by (simp add: block_def pool_def)
  have stop: "areaEndOf block 1 = Some 5"
    using example_live_allocation(4) by (simp add: block_def pool_def)
  have m: "1 = (256 + p_granularity pool - 1) div p_granularity pool" "0 < (1 :: nat)" "(1 :: nat) < 5 - 1"
    by (simp_all add: pool_def example_impl_1000_def)
  note t = shrink_live_allocation[OF example_run_1000 example_live_allocation(1) pool_def block_def st used stop m,
      of "(7, 7, 7)"]
  have c: "b_rx block + byteSizeFromAreaSize pool 1 = 1048832"
    "b_rw block + byteSizeFromAreaSize pool 1 = 1048832"
    "1 * p_granularity pool = 256" "length (b_usedBitVector block) * 64 = 512"
    by (simp_all add: block_def pool_def example_impl_1000_def byteSizeFromAreaSize_def size_t_def)
  from t obtain impl' where
    a1: "shrink (Some example_impl_1000) 1048832 256 = Some (kErrorOk, Some impl')"
    and a2: "\<forall>i < length (b_usedBitVector block) * 64.
               bitAt (b_usedBitVector (p_blocks (i_pools impl' ! 0) ! 0)) i
                 = (bitAt (b_usedBitVector block) i \<and> \<not> (1 + 1 \<le> i \<and> i < 5))"
    and a3: "\<forall>i. bitAt (b_stopBitVector (p_blocks (i_pools impl' ! 0) ! 0)) i
                 = (if i = 1 + 1 - 1 then True else if i = 5 - 1 then False
                    else bitAt (b_stopBitVector block) i)"
    and a4: "query (Some impl') 1048832 (7, 7, 7)
               = Some (kErrorOk, (b_rx block + byteSizeFromAreaSize pool 1,
                                  b_rw block + byteSizeFromAreaSize pool 1,
                                  1 * p_granularity pool))"
    by blast
  have b2: "\<forall>i < 512. bitAt (b_usedBitVector (p_blocks (i_pools impl' ! 0) ! 0)) i
                = (bitAt (b_usedBitVector (p_blocks (i_pools example_impl_1000 ! 0) ! 0)) i
                   \<and> \<not> (2 \<le> i \<and> i < 5))"
    using a2 unfolding c(4) unfolding block_def pool_def by (auto simp: numeral_2_eq_2)
  have b3: "\<forall>i. bitAt (b_stopBitVector (p_blocks (i_pools impl' ! 0) ! 0)) i
                = (if i = 1 then True else if i = 4 then False
                   else bitAt (b_stopBitVector (p_blocks (i_pools example_impl_1000 ! 0) ! 0)) i)"
    using a3 unfolding block_def pool_def by simp
  have b4: "query (Some impl') 1048832 (7, 7, 7) = Some (kErrorOk, (1048832, 1048832, 256))"
    using a4 unfolding c .
  from a1 b2 b3 b4
  have "\<exists>impl'. shrink (Some example_impl_1000) 1048832 256 = Some (kErrorOk, Some impl')
         \<and> (\<forall>i < 512. bitAt (b_usedBitVector (p_blocks (i_pools impl' ! 0) ! 0)) i
                = (bitAt (b_usedBitVector (p_blocks (i_pools example_impl_1000 ! 0) ! 0)) i
                   \<and> \<not> (2 \<le> i \<and> i < 5)))
         \<and> (\<forall>i. bitAt (b_stopBitVector (p_blocks (i_pools impl' ! 0) ! 0)) i
                = (if i = 1 then True else if i = 4 then False
                   else bitAt (b_stopBitVector (p_blocks (i_pools example_impl_1000 ! 0) ! 0)) i))
         \<and> query (Some impl') 1048832 (7, 7, 7) = Some (kErrorOk, (1048832, 1048832, 256))"
    by blast
  with example_run_1000 example_alloc_1000 example_live_allocation show ?thesis by (intro conjI)
qed

end
